theory Spec2Isabelle
  imports Complex_Main "HOL-Library.Multiset" "HOL-Library.Log_Nat"
begin

section \<open>Shared data\<close>

text \<open>
  A ledger block as the TypeScript sources use it: \<^verbatim>\<open>{ number: number; timestamp: number }\<close>.
  Both fields are integers.
\<close>

record block =
  number :: int
  timestamp :: int

text \<open>
  Every \<^verbatim>\<open>assert(...)\<close> of the sources throws an AssertionError with its message; reading a
  property of \<^verbatim>\<open>undefined\<close> throws a TypeError.
\<close>

datatype error = AssertionError string | TypeError

text \<open>\<^verbatim>\<open>MAX_SAFE_JS_INT\<close> of \<^verbatim>\<open>common/src/Constants.ts\<close>.\<close>

definition MAX_SAFE_JS_INT :: int where
  "MAX_SAFE_JS_INT = 2147483647"

section \<open>computeTWAP\<close>

text \<open>
  \<^verbatim>\<open>type TwapEvent = [timestamp: number, price: BN | null]\<close>. A \<^verbatim>\<open>BN\<close> (library
  \<^verbatim>\<open>bn.js\<close>) is an arbitrary-precision integer and \<^verbatim>\<open>add\<close> is integer addition.
  \<^verbatim>\<open>muln(num)\<close> and \<^verbatim>\<open>divn(num)\<close> take a JavaScript number and start with an assertion
  on its size, \<^verbatim>\<open>assert(num < 0x4000000)\<close> and \<^verbatim>\<open>assert(num <= 0x3ffffff)\<close>; a failed
  assertion throws. \<^verbatim>\<open>computeTWAP\<close> calls them with numbers that are not negative;
  \<^verbatim>\<open>divn\<close> divides the magnitude and keeps the sign.
\<close>

type_synonym twapEvent = "int \<times> int option"

definition muln :: "int \<Rightarrow> int \<Rightarrow> error + int" where
  "muln a num =
     (if \<not> num < 67108864 then Inl (AssertionError ''Assertion failed'')
      else Inr (a * num))"

definition divn :: "int \<Rightarrow> int \<Rightarrow> error + int" where
  "divn a num =
     (if \<not> num \<le> 67108863 then Inl (AssertionError ''Assertion failed'')
      else Inr (sgn a * (\<bar>a\<bar> div num)))"

text \<open>The four variables of the loop: \<^verbatim>\<open>lastPrice\<close>, \<^verbatim>\<open>lastTime\<close>, \<^verbatim>\<open>priceSum\<close>, \<^verbatim>\<open>timeSum\<close>.\<close>

record twapVars =
  lastPrice :: "int option"
  lastTime :: "int option"
  priceSum :: int
  timeSum :: int

text \<open>
  The guard \<^verbatim>\<open>if (lastTime && lastPrice)\<close> tests truthiness: \<^verbatim>\<open>lastTime\<close> is a number, so it
  is falsy when it is \<^verbatim>\<open>null\<close> and also when it is \<^verbatim>\<open>0\<close>; \<^verbatim>\<open>lastPrice\<close> is an object or
  \<^verbatim>\<open>null\<close>, so it is falsy only when it is \<^verbatim>\<open>null\<close>.
\<close>

definition truthyTime :: "int option \<Rightarrow> bool" where
  "truthyTime t = (case t of None \<Rightarrow> False | Some n \<Rightarrow> n \<noteq> 0)"

text \<open>The guarded block of the loop body; \<open>Inl\<close> when \<^verbatim>\<open>muln\<close> throws.\<close>

definition accumulate :: "twapVars \<Rightarrow> twapEvent \<Rightarrow> int \<Rightarrow> int \<Rightarrow> error + twapVars" where
  "accumulate v event startTime endTime =
     (if truthyTime (lastTime v) \<and> lastPrice v \<noteq> None then
        (let startWindow = max (the (lastTime v)) startTime;
             endWindow = min (fst event) endTime;
             windowLength = max (endWindow - startWindow) 0
         in case muln (the (lastPrice v)) windowLength of
              Inl err \<Rightarrow> Inl err
            | Inr product \<Rightarrow>
                Inr (v\<lparr>priceSum := priceSum v + product,
                       timeSum := timeSum v + windowLength\<rparr>))
      else Inr v)"

text \<open>The \<^verbatim>\<open>for (const event of events)\<close> loop, with its \<^verbatim>\<open>break\<close>.\<close>

fun twapLoop :: "twapEvent list \<Rightarrow> int \<Rightarrow> int \<Rightarrow> twapVars \<Rightarrow> error + twapVars" where
  "twapLoop [] startTime endTime v = Inr v"
| "twapLoop (event # rest) startTime endTime v =
     (case accumulate v event startTime endTime of
        Inl err \<Rightarrow> Inl err
      | Inr v1 \<Rightarrow>
          if fst event > endTime then Inr v1
          else twapLoop rest startTime endTime
                 (v1\<lparr>lastPrice := snd event, lastTime := Some (fst event)\<rparr>))"

text \<open>
  \<^verbatim>\<open>computeTWAP\<close> first pushes the sentinel onto the array it was handed, so the array the
  caller holds afterwards is given next to the outcome: \<open>Inl\<close> for an exception, \<open>Inr None\<close>
  for \<^verbatim>\<open>null\<close>, \<open>Inr (Some q)\<close> for the average \<open>q\<close>.
\<close>

definition computeTWAP ::
  "twapEvent list \<Rightarrow> int \<Rightarrow> int \<Rightarrow> int \<Rightarrow> twapEvent list \<times> (error + int option)" where
  "computeTWAP events startTime endTime startingPriceSum =
     (let events1 = events @ [(MAX_SAFE_JS_INT, None)]
      in (events1,
          case twapLoop events1 startTime endTime
                 \<lparr>lastPrice = None, lastTime = None, priceSum = startingPriceSum, timeSum = 0\<rparr> of
            Inl err \<Rightarrow> Inl err
          | Inr v \<Rightarrow>
              if timeSum v = 0 then Inr None
              else (case divn (priceSum v) (timeSum v) of
                      Inl err \<Rightarrow> Inl err
                    | Inr q \<Rightarrow> Inr (Some q))))"

text \<open>
  The total overlap duration in the words of the specification: each sample is valid from its
  own timestamp to the next one (the last one to the far-future sentinel), and the overlap of a
  validity window with \<open>[start, end]\<close> is the length of the intersection.
\<close>

fun overlapDuration :: "int list \<Rightarrow> int \<Rightarrow> int \<Rightarrow> int" where
  "overlapDuration (t1 # t2 # ts) startTime endTime =
     max (min t2 endTime - max t1 startTime) 0 + overlapDuration (t2 # ts) startTime endTime"
| "overlapDuration _ startTime endTime = 0"

definition totalOverlap :: "twapEvent list \<Rightarrow> int \<Rightarrow> int \<Rightarrow> int" where
  "totalOverlap events startTime endTime =
     overlapDuration (map fst events @ [MAX_SAFE_JS_INT]) startTime endTime"

section \<open>Library helpers used by the block caches\<close>

text \<open>
  \<^verbatim>\<open>lodash.sortedIndexBy(array, value, iteratee)\<close>: a binary search for the lowest index
  at which \<open>value\<close> can be inserted. The iteratee reads a numeric property; \<open>v\<close> is that
  property of \<open>value\<close>.
\<close>

function sortedIndexLoop :: "('a \<Rightarrow> int) \<Rightarrow> 'a list \<Rightarrow> int \<Rightarrow> nat \<Rightarrow> nat \<Rightarrow> nat" where
  "sortedIndexLoop iteratee array v low high =
     (if low < high then
        (let mid = (low + high) div 2
         in if iteratee (array ! mid) < v then sortedIndexLoop iteratee array v (mid + 1) high
            else sortedIndexLoop iteratee array v low mid)
      else high)"
  by pat_completeness auto
termination
  by (relation "measure (\<lambda>(iteratee, array, v, low, high). high - low)") auto

declare sortedIndexLoop.simps [simp del]

definition sortedIndexBy :: "'a list \<Rightarrow> int \<Rightarrow> ('a \<Rightarrow> int) \<Rightarrow> nat" where
  "sortedIndexBy array v iteratee =
     (if array = [] then 0 else sortedIndexLoop iteratee array v 0 (length array))"

text \<open>\<^verbatim>\<open>lodash.clamp(number, lower, upper)\<close>: first the upper bound, then the lower one.\<close>

definition clamp :: "int \<Rightarrow> int \<Rightarrow> int \<Rightarrow> int" where
  "clamp n lower upper =
     (let n1 = (if n \<le> upper then n else upper)
      in if n1 \<ge> lower then n1 else lower)"

text \<open>\<^verbatim>\<open>array.splice(index, 0, x)\<close> inserts \<open>x\<close> before position \<open>index\<close>.\<close>

definition splice :: "'a list \<Rightarrow> nat \<Rightarrow> 'a \<Rightarrow> 'a list" where
  "splice array index x = take index array @ x # drop index array"

text \<open>\<^verbatim>\<open>array[i]\<close>: \<^verbatim>\<open>undefined\<close> (here \<open>None\<close>) outside the array.\<close>

definition elemAt :: "'a list \<Rightarrow> int \<Rightarrow> 'a option" where
  "elemAt array i = (if 0 \<le> i \<and> i < int (length array) then Some (array ! nat i) else None)"

text \<open>
  The ledger client handed to both caches: called with a block number it returns that block,
  called with no argument (or \<^verbatim>\<open>"latest"\<close>) it returns the newest block. \<open>None\<close> is the
  call for the newest block.
\<close>

type_synonym getBlock = "int option \<Rightarrow> block"

section \<open>BlockHistory\<close>

text \<open>The cache is the array \<^verbatim>\<open>blocks\<close> of the closure; each operation takes and returns it.\<close>

definition BlockHistory_has :: "block list \<Rightarrow> int \<Rightarrow> bool" where
  "BlockHistory_has blocks n = (find (\<lambda>b. number b = n) blocks \<noteq> None)"

definition BlockHistory_latest :: "block list \<Rightarrow> block option" where
  "BlockHistory_latest blocks = elemAt blocks (int (length blocks) - 1)"

definition BlockHistory_insert :: "block list \<Rightarrow> block \<Rightarrow> block list" where
  "BlockHistory_insert blocks b =
     (let index = sortedIndexBy blocks (timestamp b) timestamp
      in splice blocks index b)"

definition BlockHistory_getClosestAfter :: "block list \<Rightarrow> int \<Rightarrow> block option" where
  "BlockHistory_getClosestAfter blocks t =
     (let index = sortedIndexBy blocks t timestamp
      in elemAt blocks (int index))"

definition BlockHistory_getClosestBefore :: "block list \<Rightarrow> int \<Rightarrow> block option" where
  "BlockHistory_getClosestBefore blocks t =
     (let index = sortedIndexBy blocks t timestamp
      in case elemAt blocks (int index) of
           Some b \<Rightarrow> if timestamp b = t then Some b else elemAt blocks (int index - 1)
         | None \<Rightarrow> elemAt blocks (int index - 1))"

text \<open>
  \<^verbatim>\<open>Math.max(0, latestBlockHeight - Math.floor((bufferBlockPercent * lookback) / avg))\<close>, where
  \<open>avg\<close> is what \<^verbatim>\<open>averageBlockTimeSeconds()\<close> of \<^verbatim>\<open>@uma/common\<close> answers. The quotient is
  taken exactly, as a rational. Division by zero is written out: a positive numerator gives
  \<^verbatim>\<open>Infinity\<close> and the height \<open>0\<close>; a zero or negative numerator gives \<^verbatim>\<open>NaN\<close> or
  \<^verbatim>\<open>Infinity\<close> as the height (\<open>None\<close>), for which the fetch loop runs no iteration.
\<close>

definition earliestBlockHeight :: "int \<Rightarrow> rat \<Rightarrow> int \<Rightarrow> rat \<Rightarrow> int option" where
  "earliestBlockHeight latestBlockHeight bufferBlockPercent lookback avg =
     (if avg = 0 then (if bufferBlockPercent * of_int lookback > 0 then Some 0 else None)
      else Some (max 0 (latestBlockHeight - \<lfloor>(bufferBlockPercent * of_int lookback) / avg\<rfloor>)))"

text \<open>
  \<^verbatim>\<open>update(lookback, now, bufferBlockPercent)\<close> returns the fetched blocks; the cache after
  the call is returned with them.
\<close>

definition BlockHistory_update ::
  "getBlock \<Rightarrow> rat \<Rightarrow> block list \<Rightarrow> int \<Rightarrow> int \<Rightarrow> rat \<Rightarrow> error + (block list \<times> block list)" where
  "BlockHistory_update getBlock averageBlockTimeSeconds blocks lookback now bufferBlockPercent =
     (if \<not> lookback \<ge> 0 then Inl (AssertionError ''requires lookback in seconds'')
      else if \<not> now \<ge> 0 then Inl (AssertionError ''requires current time'')
      else
        (let latestBlock = getBlock None;
             latestBlockHeight = number latestBlock;
             result =
               (case earliestBlockHeight latestBlockHeight bufferBlockPercent lookback
                       averageBlockTimeSeconds of
                  None \<Rightarrow> []
                | Some earliest \<Rightarrow> map (\<lambda>i. getBlock (Some i)) [earliest..latestBlockHeight])
         in Inr (foldl (\<lambda>bs b. if timestamp b \<ge> now - lookback then BlockHistory_insert bs b else bs)
                   blocks result,
                 result)))"

text \<open>
  The operations of a \<^verbatim>\<open>BlockHistory\<close> object and their effect on the cache. An \<^verbatim>\<open>update\<close>
  carries the ledger client's answers and the average block time in force when it runs; its
  assertions are checked before the cache is touched, so a failed \<^verbatim>\<open>update\<close> leaves the cache
  as it was. The queries do not write.
\<close>

datatype historyOp =
    Insert block
  | Update getBlock rat int int rat
  | Has int
  | Latest
  | GetClosestAfter int
  | GetClosestBefore int
  | ListBlocks

fun applyOp :: "block list \<Rightarrow> historyOp \<Rightarrow> block list" where
  "applyOp blocks (Insert b) = BlockHistory_insert blocks b"
| "applyOp blocks (Update getBlock avg lookback now bufferBlockPercent) =
     (case BlockHistory_update getBlock avg blocks lookback now bufferBlockPercent of
        Inl e \<Rightarrow> blocks
      | Inr (blocks1, result) \<Rightarrow> blocks1)"
| "applyOp blocks _ = blocks"

section \<open>BlockFinder\<close>

text \<open>\<^verbatim>\<open>getLatestBlock\<close> and \<^verbatim>\<open>getBlock\<close> return the block and leave it in the cache.\<close>

definition BlockFinder_getLatestBlock :: "getBlock \<Rightarrow> block list \<Rightarrow> block list \<times> block" where
  "BlockFinder_getLatestBlock requestBlock blocks =
     (let block = requestBlock None;
          index = sortedIndexBy blocks (number block) number
      in case elemAt blocks (int index) of
           Some b \<Rightarrow> if number b \<noteq> number block then (splice blocks index block, block)
                     else (blocks, b)
         | None \<Rightarrow> (splice blocks index block, block))"

definition BlockFinder_getBlock :: "getBlock \<Rightarrow> block list \<Rightarrow> int \<Rightarrow> block list \<times> block" where
  "BlockFinder_getBlock requestBlock blocks n =
     (let index = sortedIndexBy blocks n number
      in case elemAt blocks (int index) of
           Some b \<Rightarrow> if number b = n then (blocks, b)
                     else (let block = requestBlock (Some n) in (splice blocks index block, block))
         | None \<Rightarrow> (let block = requestBlock (Some n) in (splice blocks index block, block)))"

text \<open>
  The arithmetic of \<^verbatim>\<open>findBlock\<close> is that of IEEE 754 doubles: the quotient and the product
  of the interpolation are each rounded to the nearest double, a tie to the even significand.
  \<open>binaryExponent x\<close> is the \<open>e\<close> with \<open>2 ^ e \<le> \<bar>x\<bar> < 2 ^ (e + 1)\<close>, for \<open>x \<noteq> 0\<close>;
  \<open>roundToDouble x\<close> is the double nearest to \<open>x\<close>, with 53 significant bits. The exponent
  range of doubles is not modelled (no subnormal numbers, no overflow): the quotient of two
  integers below \<open>2 ^ 53\<close> and its product with such an integer are inside it.
\<close>

definition pow2 :: "int \<Rightarrow> rat" where
  "pow2 e = (if 0 \<le> e then 2 ^ nat e else 1 / 2 ^ nat (- e))"

definition binaryExponent :: "rat \<Rightarrow> int" where
  "binaryExponent x =
     (let (p, q) = quotient_of \<bar>x\<bar>;
          d = bitlen p - bitlen q
      in if pow2 d \<le> \<bar>x\<bar> then d else d - 1)"

definition roundToDouble :: "rat \<Rightarrow> rat" where
  "roundToDouble x =
     (if x = 0 then 0
      else (let ulp = pow2 (binaryExponent x - 52);
                m = \<bar>x\<bar> / ulp;
                f = \<lfloor>m\<rfloor>;
                r = m - of_int f;
                n = (if r < 1 / 2 then f else if 1 / 2 < r then f + 1
                     else if even f then f else f + 1)
            in sgn x * of_int n * ulp))"

text \<open>
  The block number \<^verbatim>\<open>findBlock\<close> asks for next: the interpolated estimate, clamped.
  The differences of timestamps and of block numbers are integers and exact;
  \<^verbatim>\<open>Math.round\<close> gives the integer nearest to the double it is handed, a tie upwards.
\<close>

definition estimatedBlock :: "block \<Rightarrow> block \<Rightarrow> int \<Rightarrow> int" where
  "estimatedBlock startBlock endBlock t =
     (let totalTimeDifference = timestamp endBlock - timestamp startBlock;
          totalBlockDistance = number endBlock - number startBlock;
          blockPercentile =
            roundToDouble (of_int (t - timestamp startBlock) / of_int totalTimeDifference)
      in number startBlock
           + \<lfloor>roundToDouble (blockPercentile * of_int totalBlockDistance) + 1 / 2\<rfloor>)"

definition probedBlock :: "block \<Rightarrow> block \<Rightarrow> int \<Rightarrow> int" where
  "probedBlock startBlock endBlock t =
     clamp (estimatedBlock startBlock endBlock t) (number startBlock + 1) (number endBlock - 1)"

text \<open>
  \<^verbatim>\<open>findBlock\<close> recurses until the bracket closes; nothing in it bounds the recursion for an
  arbitrary ledger client, so not returning is the value \<open>None\<close>. \<^verbatim>\<open>undefined\<close> passed
  for a block is \<open>None\<close>; reading its fields throws.
\<close>

partial_function (option) findBlock ::
  "getBlock \<Rightarrow> block list \<Rightarrow> block option \<Rightarrow> block option \<Rightarrow> int
     \<Rightarrow> (error + (block list \<times> block)) option" where
  "findBlock requestBlock blocks startOpt endOpt t =
     (case endOpt of
        None \<Rightarrow> Some (Inl TypeError)
      | Some endBlock \<Rightarrow>
          if timestamp endBlock = t then Some (Inr (blocks, endBlock))
          else
            (case startOpt of
               None \<Rightarrow> Some (Inl TypeError)
             | Some startBlock \<Rightarrow>
                 if number endBlock = number startBlock + 1 then Some (Inr (blocks, startBlock))
                 else if \<not> number endBlock \<noteq> number startBlock
                   then Some (Inl (AssertionError ''startBlock cannot equal endBlock''))
                 else if \<not> (t < timestamp endBlock \<and> t > timestamp startBlock)
                   then Some (Inl (AssertionError ''timestamp not in between start and end blocks''))
                 else
                   (let r = BlockFinder_getBlock requestBlock blocks
                              (probedBlock startBlock endBlock t)
                    in if timestamp (snd r) < t
                       then findBlock requestBlock (fst r) (Some (snd r)) (Some endBlock) t
                       else findBlock requestBlock (fst r) (Some startBlock) (Some (snd r)) t)))"

declare findBlock.simps [code]

text \<open>
  The backward search of \<^verbatim>\<open>getBlockForTimestamp\<close>: the loop over \<^verbatim>\<open>multiplier\<close>.
  \<open>estimate\<close> is what \<^verbatim>\<open>estimateBlocksElapsed\<close> of \<^verbatim>\<open>@uma/common\<close> answered. The
  source computes \<^verbatim>\<open>incrementDistance\<close> once, before the loop; here it is computed from
  the same estimate in every iteration, which gives the same value. Next to the outcome the
  loop gives the block numbers it handed to \<^verbatim>\<open>getBlock\<close>, in order.
\<close>

function searchBackward ::
  "getBlock \<Rightarrow> block list \<Rightarrow> int \<Rightarrow> int \<Rightarrow> int \<Rightarrow> nat \<Rightarrow> int list \<times> (error + block list)" where
  "searchBackward requestBlock blocks initialNumber estimate t multiplier =
     (let incrementDistance = max estimate 1;
          distance = int multiplier * incrementDistance;
          blockNumber = max 0 (initialNumber - distance);
          r = BlockFinder_getBlock requestBlock blocks blockNumber
      in if timestamp (snd r) \<le> t then ([blockNumber], Inr (fst r))
         else if \<not> blockNumber > 0
           then ([blockNumber], Inl (AssertionError ''timestamp is before block 0''))
         else
           (let rest = searchBackward requestBlock (fst r) initialNumber estimate t (multiplier + 1)
            in (blockNumber # fst rest, snd rest)))"
  by pat_completeness auto
termination
  by (relation "measure (\<lambda>(requestBlock, blocks, initialNumber, estimate, t, multiplier).
                  nat (initialNumber - int multiplier * max estimate 1))")
     (auto simp add: algebra_simps)

declare searchBackward.simps [simp del]

text \<open>
  \<^verbatim>\<open>getBlockForTimestamp(timestamp)\<close>. \<open>estimateBlocksElapsed\<close> stands for
  \<^verbatim>\<open>estimateBlocksElapsed(seconds, 1.1)\<close> of \<^verbatim>\<open>@uma/common\<close>.
\<close>

definition BlockFinder_getBlockForTimestamp ::
  "getBlock \<Rightarrow> (int \<Rightarrow> int) \<Rightarrow> block list \<Rightarrow> int \<Rightarrow> (error + (block list \<times> block)) option" where
  "BlockFinder_getBlockForTimestamp requestBlock estimateBlocksElapsed blocks t =
     (let latest =
            (if blocks = [] \<or> timestamp (last blocks) < t
             then (let r = BlockFinder_getLatestBlock requestBlock blocks
                   in (fst r, if t \<ge> timestamp (snd r) then Some (snd r) else None))
             else (blocks, None));
          blocks1 = fst latest
      in case snd latest of
           Some block \<Rightarrow> Some (Inr (blocks1, block))
         | None \<Rightarrow>
             (case elemAt blocks1 0 of
                None \<Rightarrow> Some (Inl TypeError)
              | Some initialBlock \<Rightarrow>
                  (case (if timestamp initialBlock > t
                         then snd (searchBackward requestBlock blocks1 (number initialBlock)
                                     (estimateBlocksElapsed (timestamp initialBlock - t)) t 1)
                         else Inr blocks1) of
                     Inl e \<Rightarrow> Some (Inl e)
                   | Inr blocks2 \<Rightarrow>
                       (let index = int (sortedIndexBy blocks2 t timestamp)
                        in findBlock requestBlock blocks2 (elemAt blocks2 (index - 1))
                             (elemAt blocks2 index) t))))"

section \<open>The liquidator's execution loop\<close>

text \<open>
  What the process does is recorded as a list of events: the calls of the polling cycle, the
  \<^verbatim>\<open>onRetry\<close> log and the wait of the retry wrapper (with its length in milliseconds), the
  logs and sleeps of the loop (a sleep with its length in seconds).
\<close>

datatype call =
    LiquidatorUpdate
  | GetEffectiveSyntheticTokenBalance
  | LiquidatePositions
  | WithdrawRewards

datatype event =
    Setup
  | CheckIsExpiredOrShutdown
  | Called call
  | OnRetry
  | RetryWait int
  | LogDebug string
  | LogError string
  | WaitForLogger
  | Delay int

text \<open>
  The collaborators of \<^verbatim>\<open>run\<close>. \<open>setupThrows\<close> says whether anything before the
  execution loop throws (the check of the environment in \<^verbatim>\<open>Poll\<close>, contract detection,
  price feed construction, approvals);
  \<open>isExpiredOrShutdown c\<close> is the answer of \<^verbatim>\<open>checkIsExpiredOrShutdownPromise()\<close> in cycle
  \<open>c\<close>, \<open>None\<close> when it throws; \<open>throws c a x\<close> says whether call \<open>x\<close> throws in attempt
  \<open>a\<close> of cycle \<open>c\<close>.
\<close>

record collaborators =
  setupThrows :: bool
  isExpiredOrShutdown :: "nat \<Rightarrow> bool option"
  throws :: "nat \<Rightarrow> nat \<Rightarrow> call \<Rightarrow> bool"

text \<open>The parameters of \<^verbatim>\<open>run\<close> that the loop reads.\<close>

record executionParameters =
  pollingDelay :: int
  errorRetries :: nat
  errorRetriesTimeout :: int

text \<open>Awaiting calls one after the other: the first that throws ends the sequence.\<close>

fun awaitAll :: "(call \<Rightarrow> bool) \<Rightarrow> call list \<Rightarrow> event list \<times> bool" where
  "awaitAll thr [] = ([], True)"
| "awaitAll thr (x # xs) =
     (if thr x then ([Called x], False)
      else (let rest = awaitAll thr xs in (Called x # fst rest, snd rest)))"

text \<open>
  The function handed to \<^verbatim>\<open>retry\<close>: one attempt of the polling cycle. The result is
  \<open>True\<close> when the attempt returns and \<open>False\<close> when it throws.
\<close>

definition cycleBody :: "collaborators \<Rightarrow> nat \<Rightarrow> bool \<Rightarrow> nat \<Rightarrow> event list \<times> bool" where
  "cycleBody env cycle isExpired attempt =
     awaitAll (throws env cycle attempt)
       ([LiquidatorUpdate]
        @ (if \<not> isExpired then [GetEffectiveSyntheticTokenBalance, LiquidatePositions] else [])
        @ [WithdrawRewards])"

text \<open>
  \<^verbatim>\<open>retry(fn, {retries, minTimeout, randomize: false, onRetry})\<close> of the library
  \<^verbatim>\<open>async-retry\<close>, which is not part of the repository. \<open>fn\<close> is run; when it throws and
  retries are left, \<^verbatim>\<open>onRetry\<close> is called, the wrapper waits and runs \<open>fn\<close> again; when
  it throws and no retry is left, the error is thrown to the caller. \<open>retries\<close> is the number
  of retries left, attempts are numbered from 1. The wait after attempt \<open>a\<close> is the library's
  \<^verbatim>\<open>Math.round(random * Math.max(minTimeout, 1) * Math.pow(factor, a - 1))\<close>, cut at
  \<^verbatim>\<open>maxTimeout\<close>: the call passes neither \<^verbatim>\<open>factor\<close> nor \<^verbatim>\<open>maxTimeout\<close>, which are then
  2 and \<^verbatim>\<open>Infinity\<close>, and \<^verbatim>\<open>random\<close> is 1 since \<^verbatim>\<open>randomize\<close> is false.
\<close>

fun retry :: "(nat \<Rightarrow> event list \<times> bool) \<Rightarrow> nat \<Rightarrow> int \<Rightarrow> nat \<Rightarrow> event list \<times> bool" where
  "retry fn 0 minTimeout attempt = fn attempt"
| "retry fn (Suc retries) minTimeout attempt =
     (let r = fn attempt
      in if snd r then r
         else (let rest = retry fn retries minTimeout (attempt + 1)
               in (fst r @ [OnRetry, RetryWait (max minTimeout 1 * 2 ^ (attempt - 1))] @ fst rest,
                   snd rest)))"

text \<open>
  The \<^verbatim>\<open>for (;;)\<close> loop of \<^verbatim>\<open>run\<close>. The loop has no exit of its own when \<open>pollingDelay\<close>
  is not 0, so it is run for at most \<open>fuel\<close> cycles: \<open>StillRunning\<close> says that the loop was
  about to start a further cycle when the fuel ran out.
\<close>

datatype completion = Returned | Thrown | StillRunning

fun executionLoop ::
  "collaborators \<Rightarrow> executionParameters \<Rightarrow> nat \<Rightarrow> nat \<Rightarrow> event list \<times> completion" where
  "executionLoop env params 0 cycle = ([], StillRunning)"
| "executionLoop env params (Suc fuel) cycle =
     (case isExpiredOrShutdown env cycle of
        None \<Rightarrow> ([CheckIsExpiredOrShutdown], Thrown)
      | Some isExpired \<Rightarrow>
          (let r = retry (cycleBody env cycle isExpired) (errorRetries params)
                     (errorRetriesTimeout params * 1000) 1
           in if \<not> snd r then (CheckIsExpiredOrShutdown # fst r, Thrown)
              else if pollingDelay params = 0
                then (CheckIsExpiredOrShutdown # fst r
                        @ [LogDebug ''End of serverless execution loop - terminating process'',
                           WaitForLogger, Delay 2],
                      Returned)
              else (let rest = executionLoop env params fuel (cycle + 1)
                    in (CheckIsExpiredOrShutdown # fst r
                          @ [LogDebug ''End of execution loop - waiting polling delay'',
                             Delay (pollingDelay params)]
                          @ fst rest,
                        snd rest))))"

definition run :: "collaborators \<Rightarrow> executionParameters \<Rightarrow> nat \<Rightarrow> event list \<times> completion" where
  "run env params fuel =
     (if setupThrows env then ([Setup], Thrown)
      else (let r = executionLoop env params fuel 0 in (Setup # fst r, snd r)))"

text \<open>
  \<^verbatim>\<open>Poll(callback)\<close>: the arguments with which the callback is called, in order
  (\<open>True\<close> for a call with an error), or \<open>None\<close> while \<^verbatim>\<open>run\<close> has not come back.
\<close>

definition Poll ::
  "collaborators \<Rightarrow> executionParameters \<Rightarrow> nat \<Rightarrow> event list \<times> bool list option" where
  "Poll env params fuel =
     (let r = run env params fuel
      in case snd r of
           StillRunning \<Rightarrow> (fst r, None)
         | Thrown \<Rightarrow> (fst r @ [LogError ''Liquidator execution error'', WaitForLogger],
                       Some [True, False])
         | Returned \<Rightarrow> (fst r, Some [False]))"

text \<open>\<^verbatim>\<open>nodeCallback\<close>: the exit status for a callback argument.\<close>

definition nodeCallback :: "bool \<Rightarrow> nat" where
  "nodeCallback err = (if err then 1 else 0)"

text \<open>
  The process started by node: \<^verbatim>\<open>Poll(nodeCallback)\<close>. The first call of the callback ends
  the process; \<open>None\<close> when the process has not ended within the fuel.
\<close>

definition exitStatus :: "collaborators \<Rightarrow> executionParameters \<Rightarrow> nat \<Rightarrow> nat option" where
  "exitStatus env params fuel =
     (case snd (Poll env params fuel) of
        None \<Rightarrow> None
      | Some [] \<Rightarrow> None
      | Some (err # later) \<Rightarrow> Some (nodeCallback err))"

text \<open>How often an event occurs in a trace.\<close>

definition occurrences :: "event \<Rightarrow> event list \<Rightarrow> nat" where
  "occurrences e trace = length (filter (\<lambda>x. x = e) trace)"

text \<open>The lengths of the waits of the retry wrapper in a trace, in order.\<close>

fun waits :: "event list \<Rightarrow> int list" where
  "waits [] = []"
| "waits (RetryWait ms # rest) = ms # waits rest"
| "waits (e # rest) = waits rest"

section \<open>The optimistic oracle proposer\<close>

text \<open>
  A price request as the proposer reads it. \<open>requestIdentifier\<close> and
  \<open>requestTimestamp\<close> are the fields \<^verbatim>\<open>identifier\<close> and \<^verbatim>\<open>timestamp\<close> of the
  request.
\<close>

record priceRequest =
  requester :: string
  requestIdentifier :: string
  requestTimestamp :: int
  ancillaryData :: string
  proposedPrice :: int

text \<open>The transactions built from \<^verbatim>\<open>optimisticOracleContract.methods\<close>.\<close>

datatype transaction =
    ProposePrice string string int string int
  | DisputePrice string string int string

datatype logLevel = Debug | Info | Error

text \<open>What a cycle of the proposer does: log entries, and transactions handed to
  \<^verbatim>\<open>runTransaction\<close>.\<close>

datatype action = Log logLevel string | Submitted transaction

text \<open>A call of a collaborator returns a value or throws.\<close>

datatype 'a outcome = Throws | Returns 'a

text \<open>How \<^verbatim>\<open>runTransaction\<close> ends: with a receipt, or throwing an error whose
  \<^verbatim>\<open>type\<close> is \<^verbatim>\<open>"call"\<close> or something else.\<close>

datatype sent = Receipt | CallError | SendError

text \<open>
  The collaborators of the proposer, none of them under \<^verbatim>\<open>src/\<close>: the two ignore lists of
  \<^verbatim>\<open>@uma/common\<close>; \<^verbatim>\<open>expirationTimestamp().call()\<close> of the contract at an address;
  \<^verbatim>\<open>createReferencePriceFeedForFinancialContract\<close> for an identifier (\<open>Returns False\<close> is
  the answer \<^verbatim>\<open>null\<close>); \<^verbatim>\<open>priceFeed.update()\<close> and
  \<^verbatim>\<open>priceFeed.getHistoricalPrice(timestamp)\<close> of the feed of an identifier;
  \<^verbatim>\<open>isDeviationOutsideErrorMargin\<close> applied to the proposed and the historical price; and
  \<^verbatim>\<open>runTransaction\<close>.
\<close>

record proposerEnv =
  OPTIMISTIC_ORACLE_IGNORE :: "string list"
  OPTIMISTIC_ORACLE_IGNORE_POST_EXPIRY :: "string list"
  expirationTimestamp :: "string \<Rightarrow> int outcome"
  createReferencePriceFeed :: "string \<Rightarrow> bool outcome"
  priceFeedUpdate :: "string \<Rightarrow> unit outcome"
  getHistoricalPrice :: "string \<Rightarrow> int \<Rightarrow> int outcome"
  isDeviationOutsideErrorMargin :: "int \<Rightarrow> int \<Rightarrow> bool"
  runTransaction :: "transaction \<Rightarrow> sent"

text \<open>
  The state of the proposer that the cycle writes is \<^verbatim>\<open>priceFeedCache\<close>: the identifiers
  that have a cached price feed. Every method gives the actions it performed, and either the
  cache it leaves (\<open>Returns\<close>) or \<open>Throws\<close> when an exception leaves the method.
\<close>

definition shouldIgnorePriceRequest :: "proposerEnv \<Rightarrow> priceRequest \<Rightarrow> action list \<times> bool" where
  "shouldIgnorePriceRequest env priceRequest =
     (if requestIdentifier priceRequest \<in> set (OPTIMISTIC_ORACLE_IGNORE env)
      then ([Log Debug ''Identifier is blacklisted''], True)
      else if requestIdentifier priceRequest \<in> set (OPTIMISTIC_ORACLE_IGNORE_POST_EXPIRY env)
      then (case expirationTimestamp env (requester priceRequest) of
              Throws \<Rightarrow> ([], False)
            | Returns expiration \<Rightarrow>
                if requestTimestamp priceRequest \<ge> expiration
                then ([Log Debug
                        ''EMP contract has expired and identifier's price resolution logic transforms post-expiry''],
                      True)
                else ([], False))
      else ([], False))"

definition createOrGetCachedPriceFeed ::
  "proposerEnv \<Rightarrow> string set \<Rightarrow> string \<Rightarrow> action list \<times> (string set \<times> bool) outcome" where
  "createOrGetCachedPriceFeed env priceFeedCache ident =
     (if ident \<in> priceFeedCache then ([], Returns (priceFeedCache, True))
      else (case createReferencePriceFeed env ident of
              Throws \<Rightarrow> ([Log Debug ''Created pricefeed configuration for identifier''], Throws)
            | Returns newPriceFeed \<Rightarrow>
                ([Log Debug ''Created pricefeed configuration for identifier''],
                 Returns (if newPriceFeed then insert ident priceFeedCache else priceFeedCache,
                          newPriceFeed))))"

definition sendProposal ::
  "proposerEnv \<Rightarrow> string set \<Rightarrow> priceRequest \<Rightarrow> action list \<times> string set outcome" where
  "sendProposal env priceFeedCache priceRequest =
     (case createOrGetCachedPriceFeed env priceFeedCache (requestIdentifier priceRequest) of
        (trace, Throws) \<Rightarrow> (trace, Throws)
      | (trace, Returns (cache, False)) \<Rightarrow>
          (trace @ [Log Error ''Failed to construct a PriceFeed for price request''], Returns cache)
      | (trace, Returns (cache, True)) \<Rightarrow>
          (case priceFeedUpdate env (requestIdentifier priceRequest) of
             Throws \<Rightarrow> (trace, Throws)
           | Returns u \<Rightarrow>
               (case getHistoricalPrice env (requestIdentifier priceRequest)
                       (requestTimestamp priceRequest) of
                  Throws \<Rightarrow>
                    (trace @ [Log Error ''Failed to query historical price for price request''],
                     Returns cache)
                | Returns proposalPrice \<Rightarrow>
                    (let proposal = ProposePrice (requester priceRequest)
                           (requestIdentifier priceRequest) (requestTimestamp priceRequest)
                           (ancillaryData priceRequest) proposalPrice
                     in (trace @ [Log Debug ''Detected price request, and proposing new price'',
                                Submitted proposal]
                           @ (case runTransaction env proposal of
                                Receipt \<Rightarrow> [Log Info ''Proposed price!'']
                              | CallError \<Rightarrow>
                                  [Log Error
                                    ''Cannot propose price: not enough collateral (or large enough approval)'']
                              | SendError \<Rightarrow> [Log Error ''Failed to propose price'']),
                         Returns cache)))))"

definition sendDispute ::
  "proposerEnv \<Rightarrow> string set \<Rightarrow> priceRequest \<Rightarrow> action list \<times> string set outcome" where
  "sendDispute env priceFeedCache priceRequest =
     (let proposalPrice = proposedPrice priceRequest
      in case createOrGetCachedPriceFeed env priceFeedCache (requestIdentifier priceRequest) of
        (trace, Throws) \<Rightarrow> (trace, Throws)
      | (trace, Returns (cache, False)) \<Rightarrow>
          (trace @ [Log Error ''Failed to construct a PriceFeed for price request''], Returns cache)
      | (trace, Returns (cache, True)) \<Rightarrow>
          (case priceFeedUpdate env (requestIdentifier priceRequest) of
             Throws \<Rightarrow> (trace, Throws)
           | Returns u \<Rightarrow>
               (case getHistoricalPrice env (requestIdentifier priceRequest)
                       (requestTimestamp priceRequest) of
                  Throws \<Rightarrow>
                    (trace @ [Log Error ''Failed to query historical price for price request''],
                     Returns cache)
                | Returns disputePrice \<Rightarrow>
                    if isDeviationOutsideErrorMargin env proposalPrice disputePrice
                    then
                      (let dispute = DisputePrice (requester priceRequest)
                             (requestIdentifier priceRequest) (requestTimestamp priceRequest)
                             (ancillaryData priceRequest)
                       in (trace @ [Log Debug ''Disputing proposal'', Submitted dispute]
                             @ (case runTransaction env dispute of
                                  Receipt \<Rightarrow> [Log Info ''Disputed proposal!'']
                                | CallError \<Rightarrow>
                                    [Log Error
                                      ''Cannot dispute price: not enough collateral (or large enough approval)'']
                                | SendError \<Rightarrow> [Log Error ''Failed to dispute proposal'']),
                           Returns cache))
                    else
                      (trace @ [Log Debug
                               ''Skipping dispute because proposal price is within allowed margin of error''],
                       Returns cache))))"

text \<open>
  The \<^verbatim>\<open>for ... of\<close> loops of \<^verbatim>\<open>sendProposals\<close> and \<^verbatim>\<open>sendDisputes\<close>: an ignored
  request is passed over, an exception ends the loop and the cycle.
\<close>

fun forEachRequest ::
  "proposerEnv \<Rightarrow> (proposerEnv \<Rightarrow> string set \<Rightarrow> priceRequest \<Rightarrow> action list \<times> string set outcome)
     \<Rightarrow> string set \<Rightarrow> priceRequest list \<Rightarrow> action list \<times> string set outcome" where
  "forEachRequest env send priceFeedCache [] = ([], Returns priceFeedCache)"
| "forEachRequest env send priceFeedCache (priceRequest # rest) =
     (let ignore = shouldIgnorePriceRequest env priceRequest
      in if snd ignore
         then (let r = forEachRequest env send priceFeedCache rest
               in (fst ignore @ fst r, snd r))
         else (case send env priceFeedCache priceRequest of
                 (trace, Throws) \<Rightarrow> (fst ignore @ trace, Throws)
               | (trace, Returns cache) \<Rightarrow>
                   (let r = forEachRequest env send cache rest
                    in (fst ignore @ trace @ fst r, snd r))))"

definition sendProposals ::
  "proposerEnv \<Rightarrow> string set \<Rightarrow> priceRequest list \<Rightarrow> action list \<times> string set outcome" where
  "sendProposals env priceFeedCache unproposedPriceRequests =
     (let r = forEachRequest env sendProposal priceFeedCache unproposedPriceRequests
      in (Log Debug ''Checking for unproposed price requests to send proposals for'' # fst r,
          snd r))"

definition sendDisputes ::
  "proposerEnv \<Rightarrow> string set \<Rightarrow> priceRequest list \<Rightarrow> action list \<times> string set outcome" where
  "sendDisputes env priceFeedCache undisputedProposals =
     (let r = forEachRequest env sendDispute priceFeedCache undisputedProposals
      in (Log Debug ''Checking for undisputed price requests to dispute'' # fst r, snd r))"

text \<open>The transactions of a trace, in order; and whether the method came back.\<close>

fun submitted :: "action list \<Rightarrow> transaction list" where
  "submitted [] = []"
| "submitted (Submitted tx # rest) = tx # submitted rest"
| "submitted (Log level message # rest) = submitted rest"

definition completes :: "action list \<times> string set outcome \<Rightarrow> bool" where
  "completes r = (case snd r of Throws \<Rightarrow> False | Returns cache \<Rightarrow> True)"

text \<open>
  Two price feed caches agree when the larger one only adds identifiers for which a feed can be
  constructed; a send method is blind to the cache when, from caches that agree, it submits the
  same transactions, throws in the same cases and leaves caches that agree.
\<close>

definition agree :: "proposerEnv \<Rightarrow> string set \<Rightarrow> string set \<Rightarrow> bool" where
  "agree env c d = (c \<subseteq> d \<and> (\<forall>i\<in>d - c. createReferencePriceFeed env i = Returns True))"

definition cacheBlind ::
  "proposerEnv \<Rightarrow> (proposerEnv \<Rightarrow> string set \<Rightarrow> priceRequest \<Rightarrow> action list \<times> string set outcome) \<Rightarrow> bool" where
  "cacheBlind env send =
     (\<forall>c d r. agree env c d \<longrightarrow>
        submitted (fst (send env c r)) = submitted (fst (send env d r))
      \<and> (snd (send env c r) = Throws \<longleftrightarrow> snd (send env d r) = Throws)
      \<and> (\<forall>c1 d1. snd (send env c r) = Returns c1 \<and> snd (send env d r) = Returns d1
            \<longrightarrow> agree env c1 d1))"

text \<open>
  The backward search in the words of the specification, for comparison with
  \<open>searchBackward\<close>: the distance of the \<open>k\<close>-th probe doubles on each miss.
\<close>

definition doublingProbe :: "int \<Rightarrow> int \<Rightarrow> nat \<Rightarrow> int" where
  "doublingProbe initialNumber incrementDistance k =
     max 0 (initialNumber - 2 ^ (k - 1) * incrementDistance)"

section \<open>A ledger for the examples\<close>

text \<open>Block \<open>n\<close> has timestamp \<open>100 + n\<close>; the newest block is block 3.\<close>

definition exampleLedger :: getBlock where
  "exampleLedger n =
     (case n of None \<Rightarrow> \<lparr>number = 3, timestamp = 103\<rparr>
              | Some i \<Rightarrow> \<lparr>number = i, timestamp = 100 + i\<rparr>)"

section \<open>Collaborators for the examples\<close>


definition alwaysThrowing :: collaborators where
  "alwaysThrowing =
     \<lparr>setupThrows = False, isExpiredOrShutdown = (\<lambda>cycle. Some False),
      throws = (\<lambda>cycle attempt x. x = LiquidatePositions)\<rparr>"

text \<open>
  A proposer whose feeds can all be constructed and updated, with a historical price for
  \<^verbatim>\<open>ETHUSD\<close> only; and two requests.
\<close>

definition exampleProposerEnv :: proposerEnv where
  "exampleProposerEnv =
     \<lparr>OPTIMISTIC_ORACLE_IGNORE = [], OPTIMISTIC_ORACLE_IGNORE_POST_EXPIRY = [],
      expirationTimestamp = (\<lambda>address. Throws),
      createReferencePriceFeed = (\<lambda>ident. Returns True),
      priceFeedUpdate = (\<lambda>ident. Returns ()),
      getHistoricalPrice = (\<lambda>ident t. if ident = ''ETHUSD'' then Returns 2000 else Throws),
      isDeviationOutsideErrorMargin = (\<lambda>observed expected. observed \<noteq> expected),
      runTransaction = (\<lambda>tx. Receipt)\<rparr>"

definition pricedRequest :: priceRequest where
  "pricedRequest =
     \<lparr>requester = ''0xA'', requestIdentifier = ''ETHUSD'', requestTimestamp = 100,
      ancillaryData = ''0x'', proposedPrice = 1900\<rparr>"

definition unpricedRequest :: priceRequest where
  "unpricedRequest =
     \<lparr>requester = ''0xB'', requestIdentifier = ''NOPRICE'', requestTimestamp = 100,
      ancillaryData = ''0x'', proposedPrice = 1900\<rparr>"

section \<open>Properties of the sorted cache\<close>

lemma sorted_map_nth:
  "sorted (map key xs) \<Longrightarrow> i \<le> j \<Longrightarrow> j < length xs \<Longrightarrow> key (xs ! i) \<le> key (xs ! j)"
  using sorted_nth_mono [of "map key xs" i j] by simp

lemma sortedIndexLoop_bounds:
  "sorted (map key xs) \<Longrightarrow> low \<le> high \<Longrightarrow> high \<le> length xs \<Longrightarrow>
     (\<forall>i<low. key (xs ! i) < v) \<Longrightarrow> (\<forall>i. high \<le> i \<and> i < length xs \<longrightarrow> v \<le> key (xs ! i)) \<Longrightarrow>
     low \<le> sortedIndexLoop key xs v low high \<and> sortedIndexLoop key xs v low high \<le> high
     \<and> (\<forall>i<sortedIndexLoop key xs v low high. key (xs ! i) < v)
     \<and> (\<forall>i. sortedIndexLoop key xs v low high \<le> i \<and> i < length xs \<longrightarrow> v \<le> key (xs ! i))"
proof (induction key xs v low high rule: sortedIndexLoop.induct)
  case (1 key xs v low high)
  show ?case
  proof (cases "low < high")
    case False
    then have "sortedIndexLoop key xs v low high = high"
      by (subst sortedIndexLoop.simps) simp
    moreover have "low = high" using False "1.prems"(2) by simp
    ultimately show ?thesis using "1.prems" by simp
  next
    case True
    define mid where "mid = (low + high) div 2"
    have midb: "low \<le> mid" "mid < high" using True by (simp_all add: mid_def)
    have midl: "mid < length xs" using midb "1.prems"(3) by simp
    show ?thesis
    proof (cases "key (xs ! mid) < v")
      case lt: True
      have eq: "sortedIndexLoop key xs v low high = sortedIndexLoop key xs v (mid + 1) high"
        using True lt by (subst sortedIndexLoop.simps) (simp add: mid_def Let_def)
      have below: "\<forall>i<mid + 1. key (xs ! i) < v"
      proof (intro allI impI)
        fix i assume "i < mid + 1"
        then have "key (xs ! i) \<le> key (xs ! mid)"
          using sorted_map_nth [OF "1.prems"(1) _ midl, of i] by simp
        then show "key (xs ! i) < v" using lt by simp
      qed
      have ih: "mid + 1 \<le> sortedIndexLoop key xs v (mid + 1) high
          \<and> sortedIndexLoop key xs v (mid + 1) high \<le> high
          \<and> (\<forall>i<sortedIndexLoop key xs v (mid + 1) high. key (xs ! i) < v)
          \<and> (\<forall>i. sortedIndexLoop key xs v (mid + 1) high \<le> i \<and> i < length xs \<longrightarrow> v \<le> key (xs ! i))"
        using "1.IH"(1) [OF True mid_def lt "1.prems"(1) _ "1.prems"(3) below "1.prems"(5)] midb
        by simp
      show ?thesis using ih eq midb by simp
    next
      case ge: False
      have eq: "sortedIndexLoop key xs v low high = sortedIndexLoop key xs v low mid"
        using True ge by (subst sortedIndexLoop.simps) (simp add: mid_def Let_def)
      have above: "\<forall>i. mid \<le> i \<and> i < length xs \<longrightarrow> v \<le> key (xs ! i)"
      proof (intro allI impI)
        fix i assume a: "mid \<le> i \<and> i < length xs"
        then have "key (xs ! mid) \<le> key (xs ! i)"
          using sorted_map_nth [OF "1.prems"(1), of mid i] by simp
        then show "v \<le> key (xs ! i)" using ge by simp
      qed
      have ih: "low \<le> sortedIndexLoop key xs v low mid
          \<and> sortedIndexLoop key xs v low mid \<le> mid
          \<and> (\<forall>i<sortedIndexLoop key xs v low mid. key (xs ! i) < v)
          \<and> (\<forall>i. sortedIndexLoop key xs v low mid \<le> i \<and> i < length xs \<longrightarrow> v \<le> key (xs ! i))"
        using "1.IH"(2) [OF True mid_def ge "1.prems"(1) midb(1) _ "1.prems"(4) above] midl
        by simp
      show ?thesis using ih eq midb by simp
    qed
  qed
qed

lemma sortedIndexBy_bounds:
  assumes "sorted (map key xs)"
  shows "sortedIndexBy xs v key \<le> length xs
     \<and> (\<forall>i<sortedIndexBy xs v key. key (xs ! i) < v)
     \<and> (\<forall>i. sortedIndexBy xs v key \<le> i \<and> i < length xs \<longrightarrow> v \<le> key (xs ! i))"
proof (cases "xs = []")
  case True
  then show ?thesis by (simp add: sortedIndexBy_def)
next
  case False
  then show ?thesis
    using sortedIndexLoop_bounds [OF assms, of 0 "length xs" v] by (simp add: sortedIndexBy_def)
qed

lemma sortedIndexBy_takeWhile:
  assumes "sorted (map key xs)"
  shows "sortedIndexBy xs v key = length (takeWhile (\<lambda>x. key x < v) xs)"
proof -
  let ?r = "sortedIndexBy xs v key"
  have b: "?r \<le> length xs" "\<forall>i<?r. key (xs ! i) < v"
    "\<forall>i. ?r \<le> i \<and> i < length xs \<longrightarrow> v \<le> key (xs ! i)"
    using sortedIndexBy_bounds [OF assms, of v] by simp_all
  have "takeWhile (\<lambda>x. key x < v) xs = take ?r xs"
  proof (rule takeWhile_eq_take_P_nth)
    fix i assume "i < ?r" "i < length xs"
    then show "key (xs ! i) < v" using b(2) by simp
  next
    assume "?r < length xs"
    then have "v \<le> key (xs ! ?r)" using b(3) by simp
    then show "\<not> key (xs ! ?r) < v" by simp
  qed
  then show ?thesis using b(1) by simp
qed

lemma set_splice: "set (splice xs i x) = insert x (set xs)"
proof -
  have "set (take i xs) \<union> set (drop i xs) = set xs"
    using set_append [of "take i xs" "drop i xs"] by simp
  then show ?thesis by (auto simp add: splice_def)
qed

lemma mset_splice: "mset (splice xs i x) = add_mset x (mset xs)"
proof -
  have "mset (take i xs) + mset (drop i xs) = mset xs"
    using mset_append [of "take i xs" "drop i xs"] by simp
  then show ?thesis by (simp add: splice_def)
qed

lemma sorted_splice:
  assumes srt: "sorted (map key xs)" and i: "i \<le> length xs"
    and lo: "\<forall>j<i. key (xs ! j) \<le> key x"
    and hi: "\<forall>j. i \<le> j \<and> j < length xs \<longrightarrow> key x \<le> key (xs ! j)"
  shows "sorted (map key (splice xs i x))"
proof -
  have t: "sorted (map key (take i xs))" using srt by (simp add: sorted_map sorted_wrt_take)
  have d: "sorted (map key (drop i xs))" using srt by (simp add: sorted_map sorted_wrt_drop)
  have tl: "\<forall>y\<in>set (take i xs). key y \<le> key x"
  proof
    fix y assume "y \<in> set (take i xs)"
    then obtain j where "j < length (take i xs)" "take i xs ! j = y" by (auto simp add: in_set_conv_nth)
    then show "key y \<le> key x" using lo by auto
  qed
  have dl: "\<forall>y\<in>set (drop i xs). key x \<le> key y"
  proof
    fix y assume "y \<in> set (drop i xs)"
    then obtain j where j: "j < length (drop i xs)" "drop i xs ! j = y" by (auto simp add: in_set_conv_nth)
    then have "y = xs ! (i + j)" using i by simp
    moreover have "i + j < length xs" using j(1) by simp
    ultimately show "key x \<le> key y" using hi by simp
  qed
  have "\<forall>y\<in>set (take i xs). \<forall>z\<in>set (drop i xs). key y \<le> key z"
    using tl dl by (meson order_trans)
  then show ?thesis using t d tl dl by (auto simp add: splice_def sorted_append)
qed

lemma sorted_BlockHistory_insert:
  assumes "sorted (map timestamp blocks)"
  shows "sorted (map timestamp (BlockHistory_insert blocks b))"
proof -
  let ?r = "sortedIndexBy blocks (timestamp b) timestamp"
  have b: "?r \<le> length blocks" "\<forall>i<?r. timestamp (blocks ! i) < timestamp b"
    "\<forall>i. ?r \<le> i \<and> i < length blocks \<longrightarrow> timestamp b \<le> timestamp (blocks ! i)"
    using sortedIndexBy_bounds [OF assms, of "timestamp b"] by simp_all
  have "sorted (map timestamp (splice blocks ?r b))"
    by (rule sorted_splice [OF assms b(1)]) (use b in auto)
  then show ?thesis by (simp add: BlockHistory_insert_def Let_def)
qed

lemma mset_BlockHistory_insert:
  "mset (BlockHistory_insert blocks b) = add_mset b (mset blocks)"
  by (simp add: BlockHistory_insert_def Let_def mset_splice)

lemma sorted_foldl_insert:
  "sorted (map timestamp blocks) \<Longrightarrow>
   sorted (map timestamp (foldl (\<lambda>bs b. if P b then BlockHistory_insert bs b else bs) blocks result))"
  by (induction result arbitrary: blocks) (simp_all add: sorted_BlockHistory_insert)

lemma mset_foldl_insert:
  "mset (foldl (\<lambda>bs b. if P b then BlockHistory_insert bs b else bs) blocks result)
     = mset blocks + mset (filter P result)"
  by (induction result arbitrary: blocks) (simp_all add: mset_BlockHistory_insert)

lemma sorted_BlockHistory_update:
  "sorted (map timestamp blocks) \<Longrightarrow>
   BlockHistory_update getBlock avg blocks lookback now buf = Inr (blocks1, result) \<Longrightarrow>
   sorted (map timestamp blocks1)"
  by (auto simp add: BlockHistory_update_def Let_def sorted_foldl_insert split: if_splits)

lemma sorted_applyOp:
  "sorted (map timestamp blocks) \<Longrightarrow> sorted (map timestamp (applyOp blocks op))"
  by (cases op) (auto simp add: sorted_BlockHistory_insert sorted_BlockHistory_update split: sum.splits)

lemma sorted_foldl_applyOp:
  "sorted (map timestamp blocks) \<Longrightarrow> sorted (map timestamp (foldl applyOp blocks ops))"
  by (induction ops arbitrary: blocks) (simp_all add: sorted_applyOp)

lemma update_inserted:
  "BlockHistory_update getBlock avg blocks lookback now buf = Inr (blocks1, result) \<Longrightarrow>
   mset blocks1 = mset blocks + mset (filter (\<lambda>b. now - lookback \<le> timestamp b) result)"
  by (auto simp add: BlockHistory_update_def Let_def mset_foldl_insert split: if_splits)

lemma BlockHistory_insert_position:
  assumes "sorted (map timestamp blocks)"
  shows "BlockHistory_insert blocks b =
           takeWhile (\<lambda>x. timestamp x < timestamp b) blocks @ b #
           dropWhile (\<lambda>x. timestamp x < timestamp b) blocks"
  using sortedIndexBy_takeWhile [OF assms, of "timestamp b"]
    takeWhile_eq_take [of "\<lambda>x. timestamp x < timestamp b" blocks]
    dropWhile_eq_drop [of "\<lambda>x. timestamp x < timestamp b" blocks]
  by (simp add: BlockHistory_insert_def Let_def splice_def)

lemma floor_example: "\<lfloor>(11::rat) / 130\<rfloor> = 0"
  by (simp add: floor_eq_iff)

lemma exampleLedger_update:
  "BlockHistory_update exampleLedger 13 [] 1 101 (11 / 10)
     = Inr ([\<lparr>number = 3, timestamp = 103\<rparr>], [\<lparr>number = 3, timestamp = 103\<rparr>])"
  by (simp add: BlockHistory_update_def earliestBlockHeight_def exampleLedger_def floor_example
      BlockHistory_insert_def sortedIndexBy_def splice_def Let_def)

section \<open>Properties of BlockHistory\<close>

text \<open>
  Claim C2, as the code has it. For every lookback, now and fetched block set, a successful
  \<^verbatim>\<open>update\<close> adds to the cache exactly the fetched blocks whose timestamp is at least
  \<open>now - lookback\<close>, each once, and nothing else; the test has no upper bound.
\<close>

theorem BlockHistory_update_inserts_from_lower_bound:
  assumes "BlockHistory_update getBlock averageBlockTimeSeconds blocks lookback now
             bufferBlockPercent = Inr (blocks1, result)"
  shows "mset blocks1 = mset blocks + mset (filter (\<lambda>b. now - lookback \<le> timestamp b) result)"
  using assms by (rule update_inserted)

theorem BlockHistory_update_inserts_from_lower_bound_witness:
  "BlockHistory_update exampleLedger 13 [] 1 101 (11 / 10)
     = Inr ([\<lparr>number = 3, timestamp = 103\<rparr>], [\<lparr>number = 3, timestamp = 103\<rparr>])
   \<and> mset [\<lparr>number = 3, timestamp = 103\<rparr>]
       = mset [] + mset (filter (\<lambda>b. 101 - 1 \<le> timestamp b) [\<lparr>number = 3, timestamp = 103\<rparr>])"
  using exampleLedger_update
    BlockHistory_update_inserts_from_lower_bound [OF exampleLedger_update]
  by simp

text \<open>
  Claim C2 as stated fails: with \<open>now = 101\<close> and \<open>lookback = 1\<close> the fetched block 3,
  whose timestamp \<open>103\<close> is later than \<open>now\<close>, is inserted into the empty cache.
\<close>

theorem BlockHistory_update_window_counterexample:
  "BlockHistory_update exampleLedger 13 [] 1 101 (11 / 10)
     = Inr ([\<lparr>number = 3, timestamp = 103\<rparr>], [\<lparr>number = 3, timestamp = 103\<rparr>])
   \<and> \<not> timestamp \<lparr>number = 3, timestamp = 103\<rparr> \<le> 101"
  using exampleLedger_update by simp

text \<open>
  Claim C10. For every cache sorted by non-decreasing timestamp and every sequence of
  \<^verbatim>\<open>BlockHistory\<close> operations, the cache is sorted by non-decreasing timestamp afterwards;
  \<^verbatim>\<open>insert\<close> puts the block at its sorted position, after the cached blocks with a smaller
  timestamp and before all others.
\<close>

theorem BlockHistory_cache_stays_sorted:
  assumes "sorted (map timestamp blocks)"
  shows "sorted (map timestamp (foldl applyOp blocks ops))
       \<and> BlockHistory_insert blocks b =
           takeWhile (\<lambda>x. timestamp x < timestamp b) blocks @ b #
           dropWhile (\<lambda>x. timestamp x < timestamp b) blocks"
  using sorted_foldl_applyOp [OF assms] BlockHistory_insert_position [OF assms] by simp

theorem BlockHistory_cache_stays_sorted_witness:
  "sorted (map timestamp [\<lparr>number = 1, timestamp = 10\<rparr>, \<lparr>number = 2, timestamp = 20\<rparr>])
   \<and> sorted (map timestamp
        (foldl applyOp [\<lparr>number = 1, timestamp = 10\<rparr>, \<lparr>number = 2, timestamp = 20\<rparr>]
           [Insert \<lparr>number = 5, timestamp = 15\<rparr>, GetClosestBefore 15,
            Update exampleLedger 13 1 101 (11 / 10)]))
   \<and> BlockHistory_insert [\<lparr>number = 1, timestamp = 10\<rparr>, \<lparr>number = 2, timestamp = 20\<rparr>]
         \<lparr>number = 5, timestamp = 15\<rparr>
       = [\<lparr>number = 1, timestamp = 10\<rparr>, \<lparr>number = 5, timestamp = 15\<rparr>,
          \<lparr>number = 2, timestamp = 20\<rparr>]"
proof -
  have h: "sorted (map timestamp [\<lparr>number = 1, timestamp = 10\<rparr>, \<lparr>number = 2, timestamp = 20\<rparr>])"
    by simp
  note t = BlockHistory_cache_stays_sorted [OF h,
        of "[Insert \<lparr>number = 5, timestamp = 15\<rparr>, GetClosestBefore 15,
             Update exampleLedger 13 1 101 (11 / 10)]" "\<lparr>number = 5, timestamp = 15\<rparr>"]
  have c2: "BlockHistory_insert [\<lparr>number = 1, timestamp = 10\<rparr>, \<lparr>number = 2, timestamp = 20\<rparr>]
         \<lparr>number = 5, timestamp = 15\<rparr>
       = [\<lparr>number = 1, timestamp = 10\<rparr>, \<lparr>number = 5, timestamp = 15\<rparr>,
          \<lparr>number = 2, timestamp = 20\<rparr>]"
    using t [THEN conjunct2] by simp
  show ?thesis
    using h t [THEN conjunct1] c2 by blast
qed

section \<open>Properties of BlockFinder\<close>

lemma floor_rat_numeral:
  "\<lfloor>(numeral a :: rat) / numeral b\<rfloor> = numeral a div numeral b"
  by (metis floor_divide_of_int_eq of_int_numeral)

lemma elemAt_nth: "i < length xs \<Longrightarrow> elemAt xs (int i) = Some (xs ! i)"
  by (simp add: elemAt_def)

lemma elemAt_Some_set: "elemAt xs i = Some x \<Longrightarrow> x \<in> set xs"
  by (auto simp add: elemAt_def split: if_splits)

lemma getBlock_number:
  assumes "\<forall>n. number (requestBlock (Some n)) = n"
  shows "number (snd (BlockFinder_getBlock requestBlock blocks n)) = n"
  using assms by (simp add: BlockFinder_getBlock_def Let_def split: option.splits)

lemma length_splice: "length (splice xs i x) = length xs + 1"
  by (simp add: splice_def min_def)

lemma getBlock_length:
  "length (fst (BlockFinder_getBlock requestBlock blocks n)) \<le> length blocks + 1"
  by (simp add: BlockFinder_getBlock_def Let_def length_splice split: option.splits)

lemma getBlock_set:
  "set (fst (BlockFinder_getBlock requestBlock blocks n)) \<subseteq> insert (requestBlock (Some n)) (set blocks)
   \<and> snd (BlockFinder_getBlock requestBlock blocks n) \<in> insert (requestBlock (Some n)) (set blocks)"
  by (auto simp add: BlockFinder_getBlock_def Let_def set_splice split: option.splits
      dest: elemAt_Some_set)

text \<open>
  The estimate is the one of double arithmetic: between block 100 at time 0 and block 185 at
  time 60, the estimate for time 42 is block 159. The double for \<open>42 / 60\<close> is below
  \<open>7 / 10\<close>, and its product with 85 rounds to a double below \<open>59.5\<close>, the exact value
  of \<open>(42 / 60) * 85\<close>.
\<close>

lemma estimatedBlock_rounds_doubles:
  "estimatedBlock \<lparr>number = 100, timestamp = 0\<rparr> \<lparr>number = 185, timestamp = 60\<rparr> 42 = 159"
  by code_simp

lemma probedBlock_inside:
  assumes "number s + 1 < number e"
  shows "number s < probedBlock s e t \<and> probedBlock s e t < number e"
  using assms by (simp add: probedBlock_def clamp_def Let_def)

lemma findBlock_equal:
  "timestamp e = t \<Longrightarrow> findBlock requestBlock blocks startOpt (Some e) t = Some (Inr (blocks, e))"
  by (subst findBlock.simps) simp

lemma findBlock_adjacent:
  "timestamp e \<noteq> t \<Longrightarrow> number e = number s + 1 \<Longrightarrow>
   findBlock requestBlock blocks (Some s) (Some e) t = Some (Inr (blocks, s))"
  by (subst findBlock.simps) simp

lemma findBlock_step:
  assumes "number s + 1 < number e" "timestamp s < t" "t < timestamp e"
  shows "findBlock requestBlock blocks (Some s) (Some e) t =
     (let r = BlockFinder_getBlock requestBlock blocks (probedBlock s e t)
      in if timestamp (snd r) < t
         then findBlock requestBlock (fst r) (Some (snd r)) (Some e) t
         else findBlock requestBlock (fst r) (Some s) (Some (snd r)) t)"
  using assms by (subst findBlock.simps) simp

lemma findBlock_returns:
  assumes wn: "\<forall>n. number (requestBlock (Some n)) = n"
  shows "number s < number e \<Longrightarrow> timestamp s < t \<Longrightarrow> t < timestamp e \<Longrightarrow>
    \<exists>blocks1 b. findBlock requestBlock blocks (Some s) (Some e) t = Some (Inr (blocks1, b))
       \<and> length blocks1 \<le> length blocks + nat (number e - number s - 1)"
proof (induction "nat (number e - number s)" arbitrary: s e blocks rule: less_induct)
  case less
  show ?case
  proof (cases "number e = number s + 1")
    case True
    then show ?thesis using less.prems findBlock_adjacent [of e t s requestBlock blocks] by simp
  next
    case False
    then have gap: "number s + 1 < number e" using less.prems(1) by simp
    define r where "r = BlockFinder_getBlock requestBlock blocks (probedBlock s e t)"
    have num: "number (snd r) = probedBlock s e t" unfolding r_def by (rule getBlock_number [OF wn])
    have ins: "number s < number (snd r)" "number (snd r) < number e"
      using probedBlock_inside [OF gap, of t] num by simp_all
    have len: "length (fst r) \<le> length blocks + 1" unfolding r_def by (rule getBlock_length)
    have step: "findBlock requestBlock blocks (Some s) (Some e) t =
       (if timestamp (snd r) < t
         then findBlock requestBlock (fst r) (Some (snd r)) (Some e) t
         else findBlock requestBlock (fst r) (Some s) (Some (snd r)) t)"
      using findBlock_step [OF gap less.prems(2,3), of requestBlock blocks]
      by (simp add: r_def Let_def)
    show ?thesis
    proof (cases "timestamp (snd r) < t")
      case True
      have "\<exists>blocks1 b. findBlock requestBlock (fst r) (Some (snd r)) (Some e) t = Some (Inr (blocks1, b))
         \<and> length blocks1 \<le> length (fst r) + nat (number e - number (snd r) - 1)"
        by (rule less.hyps) (use ins True less.prems in simp_all)
      then obtain blocks1 b where
        res: "findBlock requestBlock (fst r) (Some (snd r)) (Some e) t = Some (Inr (blocks1, b))"
        and l: "length blocks1 \<le> length (fst r) + nat (number e - number (snd r) - 1)" by blast
      have "length blocks1 \<le> length blocks + nat (number e - number s - 1)"
        using l len ins by linarith
      then show ?thesis using step True res by simp
    next
      case False
      show ?thesis
      proof (cases "timestamp (snd r) = t")
        case True
        have "findBlock requestBlock (fst r) (Some s) (Some (snd r)) t = Some (Inr (fst r, snd r))"
          using True by (rule findBlock_equal)
        then have "findBlock requestBlock blocks (Some s) (Some e) t = Some (Inr (fst r, snd r))"
          using step False by simp
        moreover have "length (fst r) \<le> length blocks + nat (number e - number s - 1)"
          using len gap by linarith
        ultimately show ?thesis by blast
      next
        case neq: False
        then have lt: "t < timestamp (snd r)" using False by simp
        have "\<exists>blocks1 b. findBlock requestBlock (fst r) (Some s) (Some (snd r)) t = Some (Inr (blocks1, b))
           \<and> length blocks1 \<le> length (fst r) + nat (number (snd r) - number s - 1)"
          by (rule less.hyps) (use ins lt less.prems in simp_all)
        then obtain blocks1 b where
          res: "findBlock requestBlock (fst r) (Some s) (Some (snd r)) t = Some (Inr (blocks1, b))"
          and l: "length blocks1 \<le> length (fst r) + nat (number (snd r) - number s - 1)" by blast
        have "length blocks1 \<le> length blocks + nat (number e - number s - 1)"
          using l len ins by linarith
        then show ?thesis using step False res by simp
      qed
    qed
  qed
qed



lemma exampleLedger_numbered: "\<forall>n. number (exampleLedger (Some n)) = n"
  by (simp add: exampleLedger_def)

text \<open>
  Claim C5. For a ledger client that answers a numbered request with the block of that number,
  and a bracket \<open>startBlock\<close>, \<open>endBlock\<close> with the smaller block number at the start and
  \<open>timestamp startBlock < t < timestamp endBlock\<close>, \<^verbatim>\<open>findBlock\<close> returns a block, after
  fetching at most one block for every block number strictly inside the bracket. When the
  bracket is not adjacent, the block it fetches has a number strictly inside the bracket and
  the search goes on with that block as one end, so the bracket shrinks by at least one block;
  an adjacent bracket returns \<open>startBlock\<close> at once, the cache untouched.
\<close>

theorem findBlock_terminates:
  assumes "\<forall>n. number (requestBlock (Some n)) = n"
    and "number startBlock < number endBlock"
    and "timestamp startBlock < t" and "t < timestamp endBlock"
  shows "(\<exists>blocks1 b. findBlock requestBlock blocks (Some startBlock) (Some endBlock) t
                          = Some (Inr (blocks1, b))
            \<and> length blocks1 \<le> length blocks + nat (number endBlock - number startBlock - 1))
     \<and> (number endBlock \<noteq> number startBlock + 1 \<longrightarrow>
           number startBlock < probedBlock startBlock endBlock t
         \<and> probedBlock startBlock endBlock t < number endBlock
         \<and> number (snd (BlockFinder_getBlock requestBlock blocks
                            (probedBlock startBlock endBlock t)))
             = probedBlock startBlock endBlock t
         \<and> findBlock requestBlock blocks (Some startBlock) (Some endBlock) t =
             (let r = BlockFinder_getBlock requestBlock blocks (probedBlock startBlock endBlock t)
              in if timestamp (snd r) < t
                 then findBlock requestBlock (fst r) (Some (snd r)) (Some endBlock) t
                 else findBlock requestBlock (fst r) (Some startBlock) (Some (snd r)) t))
     \<and> (number endBlock = number startBlock + 1 \<longrightarrow>
           findBlock requestBlock blocks (Some startBlock) (Some endBlock) t
             = Some (Inr (blocks, startBlock)))"
proof (intro conjI impI)
  show "\<exists>blocks1 b. findBlock requestBlock blocks (Some startBlock) (Some endBlock) t
                          = Some (Inr (blocks1, b))
            \<and> length blocks1 \<le> length blocks + nat (number endBlock - number startBlock - 1)"
    using findBlock_returns [OF assms] .
next
  assume "number endBlock \<noteq> number startBlock + 1"
  then have gap: "number startBlock + 1 < number endBlock" using assms(2) by simp
  show "number startBlock < probedBlock startBlock endBlock t"
    using probedBlock_inside [OF gap] by simp
  show "probedBlock startBlock endBlock t < number endBlock"
    using probedBlock_inside [OF gap] by simp
  show "number (snd (BlockFinder_getBlock requestBlock blocks (probedBlock startBlock endBlock t)))
          = probedBlock startBlock endBlock t"
    by (rule getBlock_number [OF assms(1)])
  show "findBlock requestBlock blocks (Some startBlock) (Some endBlock) t =
             (let r = BlockFinder_getBlock requestBlock blocks (probedBlock startBlock endBlock t)
              in if timestamp (snd r) < t
                 then findBlock requestBlock (fst r) (Some (snd r)) (Some endBlock) t
                 else findBlock requestBlock (fst r) (Some startBlock) (Some (snd r)) t)"
    by (rule findBlock_step [OF gap assms(3,4)])
next
  assume "number endBlock = number startBlock + 1"
  then show "findBlock requestBlock blocks (Some startBlock) (Some endBlock) t
             = Some (Inr (blocks, startBlock))"
    using assms(4) findBlock_adjacent [of endBlock t startBlock requestBlock blocks] by simp
qed

theorem findBlock_terminates_witness:
  "number \<lparr>number = 0, timestamp = 100\<rparr> < number \<lparr>number = 8, timestamp = 108\<rparr>
   \<and> timestamp \<lparr>number = 0, timestamp = 100\<rparr> < 105
   \<and> 105 < timestamp \<lparr>number = 8, timestamp = 108\<rparr>
   \<and> (\<exists>blocks1 b.
         findBlock exampleLedger [\<lparr>number = 0, timestamp = 100\<rparr>, \<lparr>number = 8, timestamp = 108\<rparr>]
           (Some \<lparr>number = 0, timestamp = 100\<rparr>) (Some \<lparr>number = 8, timestamp = 108\<rparr>) 105
           = Some (Inr (blocks1, b))
         \<and> length blocks1 \<le> 9)
   \<and> 0 < probedBlock \<lparr>number = 0, timestamp = 100\<rparr> \<lparr>number = 8, timestamp = 108\<rparr> 105
   \<and> probedBlock \<lparr>number = 0, timestamp = 100\<rparr> \<lparr>number = 8, timestamp = 108\<rparr> 105 < 8
   \<and> findBlock exampleLedger [\<lparr>number = 4, timestamp = 104\<rparr>, \<lparr>number = 5, timestamp = 106\<rparr>]
         (Some \<lparr>number = 4, timestamp = 104\<rparr>) (Some \<lparr>number = 5, timestamp = 106\<rparr>) 105
       = Some (Inr ([\<lparr>number = 4, timestamp = 104\<rparr>, \<lparr>number = 5, timestamp = 106\<rparr>],
                    \<lparr>number = 4, timestamp = 104\<rparr>))"
proof -
  have h1: "number \<lparr>number = 0, timestamp = 100\<rparr> < number \<lparr>number = 8, timestamp = 108\<rparr>"
    and h2: "timestamp \<lparr>number = 0, timestamp = 100\<rparr> < 105"
    and h3: "105 < timestamp \<lparr>number = 8, timestamp = 108\<rparr>"
    by simp_all
  have g1: "number \<lparr>number = 4, timestamp = 104\<rparr> < number \<lparr>number = 5, timestamp = 106\<rparr>"
    and g2: "timestamp \<lparr>number = 4, timestamp = 104\<rparr> < 105"
    and g3: "105 < timestamp \<lparr>number = 5, timestamp = 106\<rparr>"
    by simp_all
  note wide = findBlock_terminates [OF exampleLedger_numbered h1 h2 h3,
      of "[\<lparr>number = 0, timestamp = 100\<rparr>, \<lparr>number = 8, timestamp = 108\<rparr>]"]
  note adjacent = findBlock_terminates [OF exampleLedger_numbered g1 g2 g3,
      of "[\<lparr>number = 4, timestamp = 104\<rparr>, \<lparr>number = 5, timestamp = 106\<rparr>]"]
  have c1: "\<exists>blocks1 b.
         findBlock exampleLedger [\<lparr>number = 0, timestamp = 100\<rparr>, \<lparr>number = 8, timestamp = 108\<rparr>]
           (Some \<lparr>number = 0, timestamp = 100\<rparr>) (Some \<lparr>number = 8, timestamp = 108\<rparr>) 105
           = Some (Inr (blocks1, b))
         \<and> length blocks1 \<le> 9"
    using wide [THEN conjunct1] by simp
  have c2: "0 < probedBlock \<lparr>number = 0, timestamp = 100\<rparr> \<lparr>number = 8, timestamp = 108\<rparr> 105
     \<and> probedBlock \<lparr>number = 0, timestamp = 100\<rparr> \<lparr>number = 8, timestamp = 108\<rparr> 105 < 8"
    using wide [THEN conjunct2, THEN conjunct1] by simp
  have c3: "findBlock exampleLedger [\<lparr>number = 4, timestamp = 104\<rparr>, \<lparr>number = 5, timestamp = 106\<rparr>]
         (Some \<lparr>number = 4, timestamp = 104\<rparr>) (Some \<lparr>number = 5, timestamp = 106\<rparr>) 105
       = Some (Inr ([\<lparr>number = 4, timestamp = 104\<rparr>, \<lparr>number = 5, timestamp = 106\<rparr>],
                    \<lparr>number = 4, timestamp = 104\<rparr>))"
    using adjacent [THEN conjunct2, THEN conjunct2] by simp
  show ?thesis using h1 h2 h3 c1 c2 c3 by blast
qed

lemma sorted_cache_index:
  assumes srt: "sorted (map timestamp blocks)" and b: "b \<in> set blocks"
  shows "sortedIndexBy blocks (timestamp b) timestamp < length blocks
       \<and> timestamp (blocks ! sortedIndexBy blocks (timestamp b) timestamp) = timestamp b
       \<and> blocks ! sortedIndexBy blocks (timestamp b) timestamp
           = hd (filter (\<lambda>x. timestamp x = timestamp b) blocks)"
proof -
  define r where "r = sortedIndexBy blocks (timestamp b) timestamp"
  have b1: "r \<le> length blocks" and b2: "\<forall>i<r. timestamp (blocks ! i) < timestamp b"
    and b3: "\<forall>i. r \<le> i \<and> i < length blocks \<longrightarrow> timestamp b \<le> timestamp (blocks ! i)"
    using sortedIndexBy_bounds [OF srt, of "timestamp b"] unfolding r_def by blast+
  obtain j where j: "j < length blocks" "blocks ! j = b" using b by (auto simp add: in_set_conv_nth)
  have rj: "r \<le> j"
  proof (rule ccontr)
    assume "\<not> r \<le> j"
    then have "timestamp (blocks ! j) < timestamp b" using b2 by simp
    then show False using j(2) by simp
  qed
  then have rl: "r < length blocks" using j(1) by simp
  have "timestamp (blocks ! r) \<le> timestamp (blocks ! j)"
    by (rule sorted_map_nth [OF srt rj j(1)])
  moreover have "timestamp b \<le> timestamp (blocks ! r)" using b3 rl by blast
  ultimately have eq: "timestamp (blocks ! r) = timestamp b" using j(2) by simp
  have tk: "filter (\<lambda>x. timestamp x = timestamp b) (take r blocks) = []"
  proof -
    have "\<forall>x\<in>set (take r blocks). timestamp x < timestamp b"
    proof
      fix x assume "x \<in> set (take r blocks)"
      then obtain i where "i < length (take r blocks)" "take r blocks ! i = x"
        by (auto simp add: in_set_conv_nth)
      then have "i < r" "x = blocks ! i" by simp_all
      then show "timestamp x < timestamp b" using b2 by simp
    qed
    then show ?thesis by (auto simp add: filter_empty_conv)
  qed
  have "blocks = take r blocks @ blocks ! r # drop (Suc r) blocks"
    using rl by (simp add: id_take_nth_drop)
  then have "filter (\<lambda>x. timestamp x = timestamp b) blocks
      = filter (\<lambda>x. timestamp x = timestamp b) (take r blocks @ blocks ! r # drop (Suc r) blocks)"
    by simp
  also have "\<dots> = blocks ! r # filter (\<lambda>x. timestamp x = timestamp b) (drop (Suc r) blocks)"
    using tk eq by simp
  finally have "hd (filter (\<lambda>x. timestamp x = timestamp b) blocks) = blocks ! r" by simp
  then show ?thesis using rl eq unfolding r_def by simp
qed

lemma sorted_hd_le:
  assumes "sorted (map timestamp blocks)" "b \<in> set blocks"
  shows "timestamp (hd blocks) \<le> timestamp b"
proof -
  obtain j where j: "j < length blocks" "blocks ! j = b"
    using assms(2) by (auto simp add: in_set_conv_nth)
  have "timestamp (blocks ! 0) \<le> timestamp (blocks ! j)"
    by (rule sorted_map_nth [OF assms(1) _ j(1)]) simp
  moreover have "blocks \<noteq> []" using assms(2) by auto
  ultimately show ?thesis using j(2) by (simp add: hd_conv_nth)
qed

lemma sorted_le_last:
  assumes "sorted (map timestamp blocks)" "b \<in> set blocks"
  shows "timestamp b \<le> timestamp (last blocks)"
proof -
  obtain j where j: "j < length blocks" "blocks ! j = b"
    using assms(2) by (auto simp add: in_set_conv_nth)
  have ne: "blocks \<noteq> []" using assms(2) by auto
  have "timestamp (blocks ! j) \<le> timestamp (blocks ! (length blocks - 1))"
    by (rule sorted_map_nth [OF assms(1)]) (use j ne in simp_all)
  then show ?thesis using j(2) ne by (simp add: last_conv_nth)
qed

lemma round_trip:
  assumes srt: "sorted (map timestamp blocks)" and b: "b \<in> set blocks"
  shows "BlockFinder_getBlockForTimestamp requestBlock estimateBlocksElapsed blocks (timestamp b)
           = Some (Inr (blocks, hd (filter (\<lambda>x. timestamp x = timestamp b) blocks)))
       \<and> BlockHistory_getClosestBefore blocks (timestamp b)
           = Some (hd (filter (\<lambda>x. timestamp x = timestamp b) blocks))"
proof -
  define r where "r = sortedIndexBy blocks (timestamp b) timestamp"
  have ix: "r < length blocks" "timestamp (blocks ! r) = timestamp b"
    "blocks ! r = hd (filter (\<lambda>x. timestamp x = timestamp b) blocks)"
    using sorted_cache_index [OF srt b] unfolding r_def by blast+
  have ne: "blocks \<noteq> []" using b by auto
  have l: "\<not> timestamp (last blocks) < timestamp b" using sorted_le_last [OF srt b] by simp
  have h: "\<not> timestamp (hd blocks) > timestamp b" using sorted_hd_le [OF srt b] by simp
  have e0: "elemAt blocks 0 = Some (hd blocks)" using ne by (simp add: elemAt_def hd_conv_nth)
  have er: "elemAt blocks (int r) = Some (blocks ! r)" using ix(1) by (rule elemAt_nth)
  have fb: "findBlock requestBlock blocks (elemAt blocks (int r - 1)) (Some (blocks ! r)) (timestamp b)
      = Some (Inr (blocks, blocks ! r))"
    using ix(2) by (rule findBlock_equal)
  have "BlockFinder_getBlockForTimestamp requestBlock estimateBlocksElapsed blocks (timestamp b)
      = Some (Inr (blocks, blocks ! r))"
    using ne l h e0 er fb
    by (simp add: BlockFinder_getBlockForTimestamp_def Let_def r_def [symmetric])
  moreover have "BlockHistory_getClosestBefore blocks (timestamp b) = Some (blocks ! r)"
    using er ix(2) by (simp add: BlockHistory_getClosestBefore_def Let_def r_def [symmetric])
  ultimately show ?thesis using ix(3) by simp
qed

lemma hd_filter_unique:
  assumes "b \<in> set blocks" "\<forall>x\<in>set blocks. timestamp x = timestamp b \<longrightarrow> x = b"
  shows "hd (filter (\<lambda>x. timestamp x = timestamp b) blocks) = b"
proof -
  have "filter (\<lambda>x. timestamp x = timestamp b) blocks \<noteq> []"
    using assms(1) by (auto simp add: filter_empty_conv)
  then have "hd (filter (\<lambda>x. timestamp x = timestamp b) blocks)
       \<in> set (filter (\<lambda>x. timestamp x = timestamp b) blocks)" by (rule hd_in_set)
  then show ?thesis using assms(2) by simp
qed

lemma searchBackward_unfold:
  "searchBackward requestBlock blocks n0 est t m =
     (if timestamp (snd (BlockFinder_getBlock requestBlock blocks (max 0 (n0 - int m * max est 1)))) \<le> t
      then ([max 0 (n0 - int m * max est 1)],
            Inr (fst (BlockFinder_getBlock requestBlock blocks (max 0 (n0 - int m * max est 1)))))
      else if \<not> max 0 (n0 - int m * max est 1) > 0
      then ([max 0 (n0 - int m * max est 1)], Inl (AssertionError ''timestamp is before block 0''))
      else (max 0 (n0 - int m * max est 1) #
              fst (searchBackward requestBlock
                     (fst (BlockFinder_getBlock requestBlock blocks (max 0 (n0 - int m * max est 1))))
                     n0 est t (m + 1)),
            snd (searchBackward requestBlock
                   (fst (BlockFinder_getBlock requestBlock blocks (max 0 (n0 - int m * max est 1))))
                   n0 est t (m + 1))))"
  by (subst searchBackward.simps) (simp only: Let_def)

lemma searchBackward_probes:
  "fst (searchBackward requestBlock blocks n0 est t m)
     = map (\<lambda>k. max 0 (n0 - int k * max est 1))
         [m..<m + length (fst (searchBackward requestBlock blocks n0 est t m))]
   \<and> fst (searchBackward requestBlock blocks n0 est t m) \<noteq> []"
proof (induction requestBlock blocks n0 est t m rule: searchBackward.induct)
  case (1 requestBlock blocks n0 est t m)
  define bn where "bn = max 0 (n0 - int m * max est 1)"
  define r where "r = BlockFinder_getBlock requestBlock blocks bn"
  define rest where "rest = searchBackward requestBlock (fst r) n0 est t (m + 1)"
  have unf: "searchBackward requestBlock blocks n0 est t m =
     (if timestamp (snd r) \<le> t then ([bn], Inr (fst r))
      else if \<not> bn > 0 then ([bn], Inl (AssertionError ''timestamp is before block 0''))
      else (bn # fst rest, snd rest))"
    unfolding rest_def r_def bn_def by (rule searchBackward_unfold)
  show ?case
  proof (cases "timestamp (snd r) \<le> t \<or> \<not> bn > 0")
    case True
    then have "fst (searchBackward requestBlock blocks n0 est t m) = [bn]"
      using unf by auto
    then show ?thesis by (simp add: bn_def)
  next
    case False
    then have c1: "\<not> timestamp (snd r) \<le> t" and c2: "\<not> \<not> 0 < bn" by simp_all
    have eq: "fst (searchBackward requestBlock blocks n0 est t m) = bn # fst rest"
      using False unf by simp
    have ih: "fst rest = map (\<lambda>k. max 0 (n0 - int k * max est 1)) [m + 1..<m + 1 + length (fst rest)]
        \<and> fst rest \<noteq> []"
      unfolding rest_def
      by (rule "1.IH" [OF refl refl bn_def r_def c1 c2])
    have "m < m + length (bn # fst rest)" by simp
    then have "[m..<m + length (bn # fst rest)] = m # [Suc m..<m + length (bn # fst rest)]"
      by (rule upt_conv_Cons)
    then have "[m..<m + length (bn # fst rest)] = m # [m + 1..<m + 1 + length (fst rest)]"
      by simp
    then have "map (\<lambda>k. max 0 (n0 - int k * max est 1)) [m..<m + length (bn # fst rest)]
        = bn # map (\<lambda>k. max 0 (n0 - int k * max est 1)) [m + 1..<m + 1 + length (fst rest)]"
      by (simp only: list.map bn_def)
    then have "map (\<lambda>k. max 0 (n0 - int k * max est 1)) [m..<m + length (bn # fst rest)]
        = bn # fst rest"
      using ih by simp
    then show ?thesis unfolding eq by simp
  qed
qed

lemma searchBackward_fails:
  "\<forall>b\<in>set blocks. t < timestamp b \<Longrightarrow> \<forall>n\<ge>0. t < timestamp (requestBlock (Some n)) \<Longrightarrow>
   snd (searchBackward requestBlock blocks n0 est t m)
     = Inl (AssertionError ''timestamp is before block 0'')
   \<and> last (fst (searchBackward requestBlock blocks n0 est t m)) = 0"
proof (induction requestBlock blocks n0 est t m rule: searchBackward.induct)
  case (1 requestBlock blocks n0 est t m)
  define bn where "bn = max 0 (n0 - int m * max est 1)"
  define r where "r = BlockFinder_getBlock requestBlock blocks bn"
  define rest where "rest = searchBackward requestBlock (fst r) n0 est t (m + 1)"
  have unf: "searchBackward requestBlock blocks n0 est t m =
     (if timestamp (snd r) \<le> t then ([bn], Inr (fst r))
      else if \<not> bn > 0 then ([bn], Inl (AssertionError ''timestamp is before block 0''))
      else (bn # fst rest, snd rest))"
    unfolding rest_def r_def bn_def by (rule searchBackward_unfold)
  have sub: "set (fst r) \<subseteq> insert (requestBlock (Some bn)) (set blocks)"
    and mem: "snd r \<in> insert (requestBlock (Some bn)) (set blocks)"
    using getBlock_set [of requestBlock blocks bn] unfolding r_def by blast+
  have bn0: "0 \<le> bn" by (simp add: bn_def)
  then have req: "t < timestamp (requestBlock (Some bn))" using "1.prems"(2) by blast
  have late: "t < timestamp (snd r)" using mem "1.prems"(1) req by auto
  have late': "\<forall>b\<in>set (fst r). t < timestamp b" using sub "1.prems"(1) req by auto
  show ?case
  proof (cases "bn > 0")
    case False
    then have "searchBackward requestBlock blocks n0 est t m
        = ([bn], Inl (AssertionError ''timestamp is before block 0''))"
      using late unf by simp
    then show ?thesis using False bn0 by simp
  next
    case True
    have eq: "searchBackward requestBlock blocks n0 est t m = (bn # fst rest, snd rest)"
      using True late unf by simp
    have c1: "\<not> timestamp (snd r) \<le> t" using late by simp
    have c2: "\<not> \<not> 0 < bn" using True by simp
    have ih: "snd rest = Inl (AssertionError ''timestamp is before block 0'') \<and> last (fst rest) = 0"
      unfolding rest_def
      by (rule "1.IH" [OF refl refl bn_def r_def c1 c2 late' "1.prems"(2)])
    have ne: "fst rest \<noteq> []" unfolding rest_def using searchBackward_probes by blast
    show ?thesis using eq ih ne by simp
  qed
qed

lemma searchBackward_hit:
  "snd (searchBackward requestBlock blocks n0 est t m) = Inr blocks2 \<Longrightarrow>
   set blocks \<subseteq> set blocks2 \<and> (\<exists>b\<in>set blocks2. timestamp b \<le> t)"
proof (induction requestBlock blocks n0 est t m arbitrary: blocks2 rule: searchBackward.induct)
  case (1 requestBlock blocks n0 est t m)
  define bn where "bn = max 0 (n0 - int m * max est 1)"
  define r where "r = BlockFinder_getBlock requestBlock blocks bn"
  define rest where "rest = searchBackward requestBlock (fst r) n0 est t (m + 1)"
  have unf: "searchBackward requestBlock blocks n0 est t m =
     (if timestamp (snd r) \<le> t then ([bn], Inr (fst r))
      else if \<not> bn > 0 then ([bn], Inl (AssertionError ''timestamp is before block 0''))
      else (bn # fst rest, snd rest))"
    unfolding rest_def r_def bn_def by (rule searchBackward_unfold)
  have sub: "set blocks \<subseteq> set (fst r)" and mem: "snd r \<in> set (fst r)"
    unfolding r_def
    by (auto simp add: BlockFinder_getBlock_def Let_def set_splice split: option.splits
        dest: elemAt_Some_set)
  show ?case
  proof (cases "timestamp (snd r) \<le> t")
    case True
    then have "blocks2 = fst r" using "1.prems" unf by simp
    then show ?thesis using sub mem True by blast
  next
    case False
    show ?thesis
    proof (cases "bn > 0")
      case nz: False
      then show ?thesis using "1.prems" unf False by simp
    next
      case True
      have c2: "\<not> \<not> 0 < bn" using True by simp
      have "snd rest = Inr blocks2" using "1.prems" unf True False by simp
      then have "set (fst r) \<subseteq> set blocks2 \<and> (\<exists>b\<in>set blocks2. timestamp b \<le> t)"
        unfolding rest_def
        by (rule "1.IH" [OF refl refl bn_def r_def False c2])
      then show ?thesis using sub by blast
    qed
  qed
qed

lemma getBlockForTimestamp_before_cache:
  assumes "blocks \<noteq> []" "\<forall>b\<in>set blocks. t < timestamp b"
  shows "BlockFinder_getBlockForTimestamp requestBlock estimateBlocksElapsed blocks t =
     (case snd (searchBackward requestBlock blocks (number (hd blocks))
                  (estimateBlocksElapsed (timestamp (hd blocks) - t)) t 1) of
        Inl e \<Rightarrow> Some (Inl e)
      | Inr blocks2 \<Rightarrow>
          findBlock requestBlock blocks2
            (elemAt blocks2 (int (sortedIndexBy blocks2 t timestamp) - 1))
            (elemAt blocks2 (int (sortedIndexBy blocks2 t timestamp))) t)"
proof -
  have l: "\<not> timestamp (last blocks) < t" using assms by (simp add: less_imp_le leD)
  have h: "timestamp (hd blocks) > t" using assms by simp
  have e0: "elemAt blocks 0 = Some (hd blocks)" using assms(1) by (simp add: elemAt_def hd_conv_nth)
  show ?thesis
    using assms(1) l h e0
    by (simp add: BlockFinder_getBlockForTimestamp_def Let_def split: sum.splits)
qed


lemma exampleLedger_probes:
  "fst (searchBackward exampleLedger [\<lparr>number = 5, timestamp = 105\<rparr>] 5 0 100 1) = [4, 3, 2, 1, 0]"
  by code_simp

text \<open>
  Claim C3, as the code has it. For every query timestamp \<open>t\<close> that precedes the timestamp
  of every block of a non-empty cache, \<^verbatim>\<open>getBlockForTimestamp\<close> searches backward from the
  first cached block: with \<open>incrementDistance\<close> the larger of \<open>1\<close> and the estimate from the
  average block time, the \<open>k\<close>-th probe (\<open>k = 1, 2, ...\<close>) asks for block number
  \<open>max 0 (initialBlock.number - k * incrementDistance)\<close>, so the distance grows by the same
  increment on each miss and no probe is below block 0. The search ends at the first probed
  block not later than \<open>t\<close>, and the interpolation search then runs on the grown cache. When
  \<open>t\<close> predates the genesis block of a ledger whose timestamps are not below that of block 0,
  the last probe is block 0 and the query fails with the assertion ``timestamp is before
  block 0''.
\<close>

theorem getBlockForTimestamp_backward_search:
  assumes "blocks \<noteq> []" and "\<forall>b\<in>set blocks. t < timestamp b"
  shows "BlockFinder_getBlockForTimestamp requestBlock estimateBlocksElapsed blocks t =
           (case snd (searchBackward requestBlock blocks (number (hd blocks))
                        (estimateBlocksElapsed (timestamp (hd blocks) - t)) t 1) of
              Inl e \<Rightarrow> Some (Inl e)
            | Inr blocks2 \<Rightarrow>
                findBlock requestBlock blocks2
                  (elemAt blocks2 (int (sortedIndexBy blocks2 t timestamp) - 1))
                  (elemAt blocks2 (int (sortedIndexBy blocks2 t timestamp))) t)
       \<and> fst (searchBackward requestBlock blocks (number (hd blocks))
                 (estimateBlocksElapsed (timestamp (hd blocks) - t)) t 1)
           = map (\<lambda>k. max 0 (number (hd blocks)
                               - int k * max (estimateBlocksElapsed (timestamp (hd blocks) - t)) 1))
               [1..<1 + length (fst (searchBackward requestBlock blocks (number (hd blocks))
                                       (estimateBlocksElapsed (timestamp (hd blocks) - t)) t 1))]
       \<and> fst (searchBackward requestBlock blocks (number (hd blocks))
                 (estimateBlocksElapsed (timestamp (hd blocks) - t)) t 1) \<noteq> []
       \<and> (\<forall>blocks2. snd (searchBackward requestBlock blocks (number (hd blocks))
                            (estimateBlocksElapsed (timestamp (hd blocks) - t)) t 1) = Inr blocks2
             \<longrightarrow> set blocks \<subseteq> set blocks2 \<and> (\<exists>b\<in>set blocks2. timestamp b \<le> t))
       \<and> (t < timestamp (requestBlock (Some 0))
            \<and> (\<forall>n\<ge>0. timestamp (requestBlock (Some 0)) \<le> timestamp (requestBlock (Some n)))
          \<longrightarrow> BlockFinder_getBlockForTimestamp requestBlock estimateBlocksElapsed blocks t
                = Some (Inl (AssertionError ''timestamp is before block 0''))
              \<and> last (fst (searchBackward requestBlock blocks (number (hd blocks))
                              (estimateBlocksElapsed (timestamp (hd blocks) - t)) t 1)) = 0)"
proof -
  let ?run = "searchBackward requestBlock blocks (number (hd blocks))
                (estimateBlocksElapsed (timestamp (hd blocks) - t)) t 1"
  note unfold = getBlockForTimestamp_before_cache [OF assms, of requestBlock estimateBlocksElapsed]
  note probes = searchBackward_probes [of requestBlock blocks "number (hd blocks)"
      "estimateBlocksElapsed (timestamp (hd blocks) - t)" t 1]
  have hit: "\<forall>blocks2. snd ?run = Inr blocks2
      \<longrightarrow> set blocks \<subseteq> set blocks2 \<and> (\<exists>b\<in>set blocks2. timestamp b \<le> t)"
    using searchBackward_hit by blast
  have fails: "t < timestamp (requestBlock (Some 0))
        \<and> (\<forall>n\<ge>0. timestamp (requestBlock (Some 0)) \<le> timestamp (requestBlock (Some n)))
      \<longrightarrow> BlockFinder_getBlockForTimestamp requestBlock estimateBlocksElapsed blocks t
            = Some (Inl (AssertionError ''timestamp is before block 0''))
          \<and> last (fst ?run) = 0"
  proof
    assume g: "t < timestamp (requestBlock (Some 0))
        \<and> (\<forall>n\<ge>0. timestamp (requestBlock (Some 0)) \<le> timestamp (requestBlock (Some n)))"
    have "\<forall>n\<ge>0. t < timestamp (requestBlock (Some n))"
    proof (intro allI impI)
      fix n :: int assume "0 \<le> n"
      then have "timestamp (requestBlock (Some 0)) \<le> timestamp (requestBlock (Some n))"
        using g by blast
      then show "t < timestamp (requestBlock (Some n))" using g by linarith
    qed
    then have f: "snd ?run = Inl (AssertionError ''timestamp is before block 0'')
        \<and> last (fst ?run) = 0"
      using searchBackward_fails [OF assms(2)] by blast
    then show "BlockFinder_getBlockForTimestamp requestBlock estimateBlocksElapsed blocks t
            = Some (Inl (AssertionError ''timestamp is before block 0''))
          \<and> last (fst ?run) = 0"
      using unfold by simp
  qed
  show ?thesis using unfold probes hit fails by blast
qed

theorem getBlockForTimestamp_backward_search_witness:
  "[\<lparr>number = 5, timestamp = 105\<rparr>] \<noteq> []
   \<and> 99 < timestamp \<lparr>number = 5, timestamp = 105\<rparr>
   \<and> 99 < timestamp (exampleLedger (Some 0))
   \<and> BlockFinder_getBlockForTimestamp exampleLedger (\<lambda>seconds. 0)
         [\<lparr>number = 5, timestamp = 105\<rparr>] 99
       = Some (Inl (AssertionError ''timestamp is before block 0''))
   \<and> last (fst (searchBackward exampleLedger [\<lparr>number = 5, timestamp = 105\<rparr>] 5 0 99 1)) = 0"
proof -
  have h1: "[\<lparr>number = 5, timestamp = 105\<rparr>] \<noteq> []" by simp
  have h2: "\<forall>b\<in>set [\<lparr>number = 5, timestamp = 105\<rparr>]. 99 < timestamp b" by simp
  have g: "99 < timestamp (exampleLedger (Some 0))
      \<and> (\<forall>n\<ge>0. timestamp (exampleLedger (Some 0)) \<le> timestamp (exampleLedger (Some n)))"
    by (simp add: exampleLedger_def)
  note t = getBlockForTimestamp_backward_search [OF h1 h2, of exampleLedger "\<lambda>seconds. 0"]
  have "BlockFinder_getBlockForTimestamp exampleLedger (\<lambda>seconds. 0)
         [\<lparr>number = 5, timestamp = 105\<rparr>] 99
       = Some (Inl (AssertionError ''timestamp is before block 0''))
   \<and> last (fst (searchBackward exampleLedger [\<lparr>number = 5, timestamp = 105\<rparr>] 5 0 99 1)) = 0"
    using t [THEN conjunct2, THEN conjunct2, THEN conjunct2, THEN conjunct2, THEN mp, OF g]
    by simp
  then show ?thesis using g by simp
qed

text \<open>
  Claim C3 as stated fails: from block 5 with increment 1 the probes are the blocks
  4, 3, 2, 1, 0, where doubling the distance on each miss gives 4, 3, 1, 0, 0.
\<close>

theorem getBlockForTimestamp_doubling_counterexample:
  "fst (searchBackward exampleLedger [\<lparr>number = 5, timestamp = 105\<rparr>] 5 0 100 1) = [4, 3, 2, 1, 0]
   \<and> map (doublingProbe 5 (max 0 1)) [1, 2, 3, 4, 5] = [4, 3, 1, 0, 0]"
  using exampleLedger_probes by (simp add: doublingProbe_def)

text \<open>
  A query with the exact timestamp of a block \<open>b\<close> of a cache sorted by timestamp, through
  \<^verbatim>\<open>getBlockForTimestamp\<close> and through \<^verbatim>\<open>getClosestBefore\<close> alike, leaves the cache as it
  is and returns \<open>b\<close> itself whenever no other cached block has \<open>b\<close>'s timestamp, also when
  \<open>b\<close> is the earliest cached block.
\<close>

lemma round_trip_unique_timestamp:
  assumes "sorted (map timestamp blocks)" and "b \<in> set blocks"
    and "\<forall>x\<in>set blocks. timestamp x = timestamp b \<longrightarrow> x = b"
  shows "BlockFinder_getBlockForTimestamp requestBlock estimateBlocksElapsed blocks (timestamp b)
           = Some (Inr (blocks, b))
       \<and> BlockHistory_getClosestBefore blocks (timestamp b) = Some b"
  using round_trip [OF assms(1,2), of requestBlock estimateBlocksElapsed]
    hd_filter_unique [OF assms(2,3)]
  by simp

text \<open>
  Claim C4. On the cache of block 1 and block 2, both of timestamp 10, a query for the
  timestamp of block 2 returns block 1, through \<^verbatim>\<open>getBlockForTimestamp\<close> and through
  \<^verbatim>\<open>getClosestBefore\<close> alike: \<^verbatim>\<open>sortedIndexBy\<close> gives the lowest index whose timestamp is
  not below the query, and \<^verbatim>\<open>findBlock\<close> returns the block at that index when its timestamp
  is the query. The latest cached block whose timestamp is at most 10, which the docstring of
  \<^verbatim>\<open>getBlockForTimestamp\<close> and the comment of \<^verbatim>\<open>findBlock\<close> announce, and which the round
  trip needs for block 2, is block 2.
\<close>

theorem blockAt_equal_timestamps:
  "BlockFinder_getBlockForTimestamp exampleLedger (\<lambda>seconds. 0)
       [\<lparr>number = 1, timestamp = 10\<rparr>, \<lparr>number = 2, timestamp = 10\<rparr>]
       (timestamp \<lparr>number = 2, timestamp = 10\<rparr>)
     = Some (Inr ([\<lparr>number = 1, timestamp = 10\<rparr>, \<lparr>number = 2, timestamp = 10\<rparr>],
                  \<lparr>number = 1, timestamp = 10\<rparr>))
   \<and> BlockHistory_getClosestBefore [\<lparr>number = 1, timestamp = 10\<rparr>, \<lparr>number = 2, timestamp = 10\<rparr>]
       (timestamp \<lparr>number = 2, timestamp = 10\<rparr>)
     = Some \<lparr>number = 1, timestamp = 10\<rparr>
   \<and> \<lparr>number = 1, timestamp = 10\<rparr> \<noteq> \<lparr>number = 2, timestamp = 10\<rparr>
   \<and> last (filter (\<lambda>x. timestamp x \<le> 10)
              [\<lparr>number = 1, timestamp = 10\<rparr>, \<lparr>number = 2, timestamp = 10\<rparr>])
     = \<lparr>number = 2, timestamp = 10\<rparr>"
proof -
  have h1: "sorted (map timestamp [\<lparr>number = 1, timestamp = 10\<rparr>, \<lparr>number = 2, timestamp = 10\<rparr>])"
    by simp
  have h2: "\<lparr>number = 2, timestamp = 10\<rparr>
      \<in> set [\<lparr>number = 1, timestamp = 10\<rparr>, \<lparr>number = 2, timestamp = 10\<rparr>]"
    by simp
  show ?thesis
    using round_trip [OF h1 h2, of exampleLedger "\<lambda>seconds. 0"] by simp
qed

section \<open>Properties of the execution loop\<close>

lemma occurrences_Nil [simp]: "occurrences e [] = 0"
  by (simp add: occurrences_def)

lemma occurrences_Cons [simp]: "occurrences e (x # xs) = (if x = e then 1 else 0) + occurrences e xs"
  by (simp add: occurrences_def)

lemma occurrences_append [simp]: "occurrences e (xs @ ys) = occurrences e xs + occurrences e ys"
  by (simp add: occurrences_def)

lemma awaitAll_events: "x \<in> set (fst (awaitAll thr xs)) \<Longrightarrow> \<exists>k\<in>set xs. x = Called k"
  by (induction xs) (auto simp add: Let_def split: if_splits)

lemma occurrences_not_in: "e \<notin> set trace \<Longrightarrow> occurrences e trace = 0"
  by (induction trace) auto

lemma awaitAll_other:
  "\<forall>k. e \<noteq> Called k \<Longrightarrow> occurrences e (fst (awaitAll thr xs)) = 0"
  by (rule occurrences_not_in) (use awaitAll_events in blast)

lemma awaitAll_absent:
  "k \<notin> set xs \<Longrightarrow> occurrences (Called k) (fst (awaitAll thr xs)) = 0"
  by (rule occurrences_not_in) (use awaitAll_events in blast)

lemma cycleBody_update_once:
  "occurrences (Called LiquidatorUpdate) (fst (cycleBody env cycle isExpired attempt)) = 1"
proof -
  have "occurrences (Called LiquidatorUpdate)
          (fst (awaitAll (throws env cycle attempt)
             ((if \<not> isExpired then [GetEffectiveSyntheticTokenBalance, LiquidatePositions] else [])
              @ [WithdrawRewards]))) = 0"
    by (rule awaitAll_absent) simp
  then show ?thesis by (simp add: cycleBody_def Let_def)
qed

lemma cycleBody_other:
  "\<forall>k. e \<noteq> Called k \<Longrightarrow> occurrences e (fst (cycleBody env cycle isExpired attempt)) = 0"
  unfolding cycleBody_def by (rule awaitAll_other)

lemma retry_all_fail:
  "\<forall>a. \<not> snd (fn a) \<Longrightarrow> \<not> snd (retry fn retries minTimeout attempt)"
  by (induction retries arbitrary: attempt) (simp_all add: Let_def)

lemma retry_all_fail_count:
  assumes "\<forall>a. \<not> snd (fn a)" and "\<forall>a. occurrences e (fst (fn a)) = n"
    and "\<forall>ms. e \<noteq> RetryWait ms"
  shows "occurrences e (fst (retry fn retries minTimeout attempt))
     = (retries + 1) * n + (if e = OnRetry then retries else 0)"
  using assms by (induction retries arbitrary: attempt) (auto simp add: Let_def)




lemma waits_append [simp]: "waits (xs @ ys) = waits xs @ waits ys"
  by (induction xs rule: waits.induct) simp_all

lemma waits_awaitAll [simp]: "waits (fst (awaitAll thr xs)) = []"
  by (induction xs) (simp_all add: Let_def)

lemma waits_cycleBody [simp]: "waits (fst (cycleBody env cycle isExpired attempt)) = []"
  by (simp add: cycleBody_def)

lemma upt_Suc_shift: "[0..<Suc n] = 0 # map Suc [0..<n]"
  by (simp add: upt_conv_Cons map_Suc_upt del: upt_Suc)

lemma retry_all_fail_waits:
  assumes "\<forall>a. \<not> snd (fn a)" and "\<forall>a. waits (fst (fn a)) = []"
  shows "waits (fst (retry fn retries minTimeout (Suc a)))
       = map (\<lambda>j. max minTimeout 1 * 2 ^ (a + j)) [0..<retries]"
  using assms
proof (induction retries arbitrary: a)
  case 0
  then show ?case by simp
next
  case (Suc retries)
  have "waits (fst (retry fn (Suc retries) minTimeout (Suc a)))
      = (max minTimeout 1 * 2 ^ a) # waits (fst (retry fn retries minTimeout (Suc (Suc a))))"
    using Suc.prems by (simp add: Let_def)
  also have "\<dots> = (max minTimeout 1 * 2 ^ a)
                   # map (\<lambda>j. max minTimeout 1 * 2 ^ (Suc a + j)) [0..<retries]"
    using Suc.IH [OF Suc.prems, of "Suc a"] by simp
  also have "\<dots> = map (\<lambda>j. max minTimeout 1 * 2 ^ (a + j)) [0..<Suc retries]"
    unfolding upt_Suc_shift [of retries] by (simp add: comp_def)
  finally show ?case .
qed

lemma executionLoop_fails_at:
  "\<forall>j<k. \<exists>e. isExpiredOrShutdown env (c + j) = Some e
           \<and> snd (retry (cycleBody env (c + j) e) (errorRetries params)
                    (errorRetriesTimeout params * 1000) 1) \<Longrightarrow>
   k = 0 \<or> pollingDelay params \<noteq> 0 \<Longrightarrow>
   isExpiredOrShutdown env (c + k) = Some isExpired \<Longrightarrow>
   \<forall>a. \<not> snd (cycleBody env (c + k) isExpired a) \<Longrightarrow>
   k < fuel \<Longrightarrow>
   \<exists>before. executionLoop env params fuel c
      = (before @ CheckIsExpiredOrShutdown
           # fst (retry (cycleBody env (c + k) isExpired) (errorRetries params)
                    (errorRetriesTimeout params * 1000) 1),
         Thrown)"
proof (induction k arbitrary: c fuel)
  case 0
  obtain f where f: "fuel = Suc f" using "0.prems"(5) by (cases fuel) auto
  have "\<not> snd (retry (cycleBody env c isExpired) (errorRetries params)
                 (errorRetriesTimeout params * 1000) 1)"
    using retry_all_fail [of "cycleBody env c isExpired"] "0.prems"(4) by simp
  then have "executionLoop env params fuel c
      = ([] @ CheckIsExpiredOrShutdown
           # fst (retry (cycleBody env (c + 0) isExpired) (errorRetries params)
                    (errorRetriesTimeout params * 1000) 1),
         Thrown)"
    using "0.prems"(3) f by (simp add: Let_def)
  then show ?case by blast
next
  case (Suc k)
  obtain f where f: "fuel = Suc f" using Suc.prems(5) by (cases fuel) auto
  obtain e where e: "isExpiredOrShutdown env c = Some e"
      "snd (retry (cycleBody env c e) (errorRetries params) (errorRetriesTimeout params * 1000) 1)"
    using Suc.prems(1) [rule_format, of 0] by auto
  have pd: "pollingDelay params \<noteq> 0" using Suc.prems(2) by simp
  have "\<exists>before. executionLoop env params f (c + 1)
      = (before @ CheckIsExpiredOrShutdown
           # fst (retry (cycleBody env (c + 1 + k) isExpired) (errorRetries params)
                    (errorRetriesTimeout params * 1000) 1),
         Thrown)"
  proof (rule Suc.IH)
    show "\<forall>j<k. \<exists>e. isExpiredOrShutdown env (c + 1 + j) = Some e
           \<and> snd (retry (cycleBody env (c + 1 + j) e) (errorRetries params)
                    (errorRetriesTimeout params * 1000) 1)"
    proof (intro allI impI)
      fix j assume "j < k"
      then have "Suc j < Suc k" by simp
      then show "\<exists>e. isExpiredOrShutdown env (c + 1 + j) = Some e
           \<and> snd (retry (cycleBody env (c + 1 + j) e) (errorRetries params)
                    (errorRetriesTimeout params * 1000) 1)"
        using Suc.prems(1) [rule_format, of "Suc j"] by simp
    qed
    show "k = 0 \<or> pollingDelay params \<noteq> 0" using pd by simp
    show "isExpiredOrShutdown env (c + 1 + k) = Some isExpired" using Suc.prems(3) by simp
    show "\<forall>a. \<not> snd (cycleBody env (c + 1 + k) isExpired a)" using Suc.prems(4) by simp
    show "k < f" using Suc.prems(5) f by simp
  qed
  then obtain before where b: "executionLoop env params f (c + 1)
      = (before @ CheckIsExpiredOrShutdown
           # fst (retry (cycleBody env (c + Suc k) isExpired) (errorRetries params)
                    (errorRetriesTimeout params * 1000) 1),
         Thrown)" by auto
  have "executionLoop env params fuel c
      = ((CheckIsExpiredOrShutdown
            # fst (retry (cycleBody env c e) (errorRetries params)
                     (errorRetriesTimeout params * 1000) 1)
            @ [LogDebug ''End of execution loop - waiting polling delay'',
               Delay (pollingDelay params)] @ before)
          @ CheckIsExpiredOrShutdown
           # fst (retry (cycleBody env (c + Suc k) isExpired) (errorRetries params)
                    (errorRetriesTimeout params * 1000) 1),
         Thrown)"
    using e pd f b by (simp add: Let_def)
  then show ?case by blast
qed




lemma alwaysThrowing_cycle: "\<forall>attempt. \<not> snd (cycleBody alwaysThrowing 0 False attempt)"
  by (simp add: cycleBody_def alwaysThrowing_def Let_def)

text \<open>
  A cycle whose body throws in every attempt, in a process that reaches it (the setup and every
  earlier cycle came back, and the process is not in single-shot mode unless it is the first
  cycle): the trace of the process ends with the attempts of this cycle and the error log. The
  cycle is attempted \<open>errorRetries + 1\<close> times, with \<open>errorRetries\<close> calls of
  \<^verbatim>\<open>onRetry\<close>, the \<open>j\<close>-th wait (from 0) lasts
  \<open>max (errorRetriesTimeout * 1000) 1 * 2 ^ j\<close> milliseconds, and the process exits with
  status 1.
\<close>

lemma always_throwing_cycle_escalates:
  assumes nosetup: "\<not> setupThrows env"
    and earlier: "\<forall>j<cycle. \<exists>e. isExpiredOrShutdown env j = Some e
            \<and> snd (retry (cycleBody env j e) (errorRetries params)
                     (errorRetriesTimeout params * 1000) 1)"
    and mode: "cycle = 0 \<or> pollingDelay params \<noteq> 0"
    and expired: "isExpiredOrShutdown env cycle = Some isExpired"
    and fails: "\<forall>attempt. \<not> snd (cycleBody env cycle isExpired attempt)"
    and enough: "cycle < fuel"
  shows "\<exists>before attempts.
           fst (Poll env params fuel)
             = before @ CheckIsExpiredOrShutdown # attempts
                 @ [LogError ''Liquidator execution error'', WaitForLogger]
         \<and> attempts = fst (retry (cycleBody env cycle isExpired) (errorRetries params)
                             (errorRetriesTimeout params * 1000) 1)
         \<and> occurrences (Called LiquidatorUpdate) attempts = errorRetries params + 1
         \<and> occurrences OnRetry attempts = errorRetries params
         \<and> waits attempts
             = map (\<lambda>j. max (errorRetriesTimeout params * 1000) 1 * 2 ^ j)
                 [0..<errorRetries params]
         \<and> exitStatus env params fuel = Some 1"
proof -
  let ?fn = "cycleBody env cycle isExpired"
  let ?attempts = "fst (retry ?fn (errorRetries params) (errorRetriesTimeout params * 1000) 1)"
  obtain before where b: "executionLoop env params fuel 0
      = (before @ CheckIsExpiredOrShutdown # ?attempts, Thrown)"
    using executionLoop_fails_at [of cycle env 0 params isExpired fuel]
      earlier mode expired fails enough by auto
  have p: "fst (Poll env params fuel)
      = (Setup # before) @ CheckIsExpiredOrShutdown # ?attempts
          @ [LogError ''Liquidator execution error'', WaitForLogger]"
    using nosetup b by (simp add: Poll_def run_def Let_def)
  have x: "exitStatus env params fuel = Some 1"
    using nosetup b by (simp add: exitStatus_def Poll_def run_def Let_def nodeCallback_def)
  have u: "\<forall>a. occurrences (Called LiquidatorUpdate) (fst (?fn a)) = 1"
    by (simp add: cycleBody_update_once)
  have o: "\<forall>a. occurrences OnRetry (fst (?fn a)) = 0" by (simp add: cycleBody_other)
  have n1: "occurrences (Called LiquidatorUpdate) ?attempts = errorRetries params + 1"
    using retry_all_fail_count [OF fails u, of "errorRetries params"
        "errorRetriesTimeout params * 1000" 1] by simp
  have n2: "occurrences OnRetry ?attempts = errorRetries params"
    using retry_all_fail_count [OF fails o, of "errorRetries params"
        "errorRetriesTimeout params * 1000" 1] by simp
  have w: "waits ?attempts
      = map (\<lambda>j. max (errorRetriesTimeout params * 1000) 1 * 2 ^ j) [0..<errorRetries params]"
    using retry_all_fail_waits [of ?fn "errorRetries params" "errorRetriesTimeout params * 1000" 0]
      fails by simp
  show ?thesis using p x n1 n2 w by blast
qed

text \<open>
  Claim C6. The run of the process with \<open>errorRetries = 3\<close> and \<open>errorRetriesTimeout = 1\<close>
  where \<^verbatim>\<open>liquidatePositions\<close> throws in every attempt. The first cycle is attempted 4
  times (one attempt and 3 retries), then the error reaches \<^verbatim>\<open>Poll\<close>, which logs it, and
  the process exits with status 1, all as the claim says. The delay between the attempts is
  not fixed: the waits last 1000, 2000 and 4000 milliseconds, where the code announces one
  delay between retries: the docstring of \<^verbatim>\<open>run\<close> has \<^verbatim>\<open>errorRetriesTimeout\<close> as the
  amount to wait between re-try iterations, the comment at the call has
  \<^verbatim>\<open>minTimeout: errorRetriesTimeout * 1000\<close> as the delay between retries in ms, and
  \<^verbatim>\<open>Poll\<close> defaults it to 1 second in between error re-tries. The call of \<^verbatim>\<open>retry\<close>
  passes no \<^verbatim>\<open>factor\<close>, and the library then doubles the wait after every attempt.
\<close>

theorem retry_waits_double:
  "fst (Poll alwaysThrowing \<lparr>pollingDelay = 60, errorRetries = 3, errorRetriesTimeout = 1\<rparr> 1)
     = [Setup, CheckIsExpiredOrShutdown,
        Called LiquidatorUpdate, Called GetEffectiveSyntheticTokenBalance, Called LiquidatePositions,
        OnRetry, RetryWait 1000,
        Called LiquidatorUpdate, Called GetEffectiveSyntheticTokenBalance, Called LiquidatePositions,
        OnRetry, RetryWait 2000,
        Called LiquidatorUpdate, Called GetEffectiveSyntheticTokenBalance, Called LiquidatePositions,
        OnRetry, RetryWait 4000,
        Called LiquidatorUpdate, Called GetEffectiveSyntheticTokenBalance, Called LiquidatePositions,
        LogError ''Liquidator execution error'', WaitForLogger]
   \<and> waits (fst (Poll alwaysThrowing
               \<lparr>pollingDelay = 60, errorRetries = 3, errorRetriesTimeout = 1\<rparr> 1))
       = [1000, 2000, 4000]
   \<and> exitStatus alwaysThrowing \<lparr>pollingDelay = 60, errorRetries = 3, errorRetriesTimeout = 1\<rparr> 1
       = Some 1"
  by (simp add: exitStatus_def Poll_def run_def Let_def nodeCallback_def alwaysThrowing_def
      cycleBody_def eval_nat_numeral)




section \<open>Properties of the proposer\<close>

lemma submitted_append [simp]: "submitted (xs @ ys) = submitted xs @ submitted ys"
  by (induction xs rule: submitted.induct) simp_all

lemma agree_refl: "agree env c c"
  by (simp add: agree_def)

lemma agree_insert:
  "i \<in> c \<or> createReferencePriceFeed env i = Returns True \<Longrightarrow> agree env c (insert i c)"
  by (auto simp add: agree_def)

lemma createOrGet_agree:
  assumes "agree env c d"
  shows "(snd (createOrGetCachedPriceFeed env c i) = Throws
            \<longleftrightarrow> snd (createOrGetCachedPriceFeed env d i) = Throws)
       \<and> (\<forall>c1 f1 d1 f2. snd (createOrGetCachedPriceFeed env c i) = Returns (c1, f1)
             \<and> snd (createOrGetCachedPriceFeed env d i) = Returns (d1, f2)
            \<longrightarrow> f1 = f2 \<and> agree env c1 d1)
       \<and> submitted (fst (createOrGetCachedPriceFeed env c i)) = []
       \<and> submitted (fst (createOrGetCachedPriceFeed env d i)) = []"
  using assms
  by (auto simp add: createOrGetCachedPriceFeed_def agree_def split: outcome.splits)

lemma sendProposal_cacheBlind: "cacheBlind env sendProposal"
  unfolding cacheBlind_def
proof (intro allI impI)
  fix c d and r :: priceRequest assume a: "agree env c d"
  obtain l1 o1 where e1: "createOrGetCachedPriceFeed env c (requestIdentifier r) = (l1, o1)"
    by (cases "createOrGetCachedPriceFeed env c (requestIdentifier r)")
  obtain l2 o2 where e2: "createOrGetCachedPriceFeed env d (requestIdentifier r) = (l2, o2)"
    by (cases "createOrGetCachedPriceFeed env d (requestIdentifier r)")
  note k = createOrGet_agree [OF a, of "requestIdentifier r", unfolded e1 e2, simplified]
  show "submitted (fst (sendProposal env c r)) = submitted (fst (sendProposal env d r))
      \<and> (snd (sendProposal env c r) = Throws \<longleftrightarrow> snd (sendProposal env d r) = Throws)
      \<and> (\<forall>c1 d1. snd (sendProposal env c r) = Returns c1 \<and> snd (sendProposal env d r) = Returns d1
            \<longrightarrow> agree env c1 d1)"
    using k
    by (cases o1; cases o2)
       (auto simp add: sendProposal_def e1 e2 Let_def split: outcome.splits bool.splits sent.splits)
qed

lemma sendDispute_cacheBlind: "cacheBlind env sendDispute"
  unfolding cacheBlind_def
proof (intro allI impI)
  fix c d and r :: priceRequest assume a: "agree env c d"
  obtain l1 o1 where e1: "createOrGetCachedPriceFeed env c (requestIdentifier r) = (l1, o1)"
    by (cases "createOrGetCachedPriceFeed env c (requestIdentifier r)")
  obtain l2 o2 where e2: "createOrGetCachedPriceFeed env d (requestIdentifier r) = (l2, o2)"
    by (cases "createOrGetCachedPriceFeed env d (requestIdentifier r)")
  note k = createOrGet_agree [OF a, of "requestIdentifier r", unfolded e1 e2, simplified]
  show "submitted (fst (sendDispute env c r)) = submitted (fst (sendDispute env d r))
      \<and> (snd (sendDispute env c r) = Throws \<longleftrightarrow> snd (sendDispute env d r) = Throws)
      \<and> (\<forall>c1 d1. snd (sendDispute env c r) = Returns c1 \<and> snd (sendDispute env d r) = Returns d1
            \<longrightarrow> agree env c1 d1)"
    using k
    by (cases o1; cases o2)
       (auto simp add: sendDispute_def e1 e2 Let_def split: outcome.splits bool.splits sent.splits if_splits)
qed


lemma forEachRequest_agree:
  assumes cb: "cacheBlind env send"
  shows "agree env c d \<Longrightarrow>
     submitted (fst (forEachRequest env send c rs)) = submitted (fst (forEachRequest env send d rs))
   \<and> (completes (forEachRequest env send c rs) \<longleftrightarrow> completes (forEachRequest env send d rs))"
proof (induction rs arbitrary: c d)
  case Nil
  then show ?case by (simp add: completes_def)
next
  case (Cons r rs)
  show ?case
  proof (cases "snd (shouldIgnorePriceRequest env r)")
    case True
    then show ?thesis using Cons.IH [OF Cons.prems] by (simp add: Let_def completes_def)
  next
    case False
    obtain l1 o1 where e1: "send env c r = (l1, o1)" by (cases "send env c r")
    obtain l2 o2 where e2: "send env d r = (l2, o2)" by (cases "send env d r")
    have k: "submitted l1 = submitted l2" "o1 = Throws \<longleftrightarrow> o2 = Throws"
      "\<forall>c1 d1. o1 = Returns c1 \<and> o2 = Returns d1 \<longrightarrow> agree env c1 d1"
      using cb [unfolded cacheBlind_def, rule_format, OF Cons.prems, of r] e1 e2 by simp_all
    show ?thesis
    proof (cases o1)
      case Throws
      then have "o2 = Throws" using k(2) by simp
      then show ?thesis using False Throws e1 e2 k(1) by (simp add: Let_def completes_def)
    next
      case (Returns c1)
      then obtain d1 where d1: "o2 = Returns d1" using k(2) by (cases o2) auto
      have "agree env c1 d1" using k(3) Returns d1 by blast
      then have "submitted (fst (forEachRequest env send c1 rs))
            = submitted (fst (forEachRequest env send d1 rs))
          \<and> (completes (forEachRequest env send c1 rs)
                \<longleftrightarrow> completes (forEachRequest env send d1 rs))"
        by (rule Cons.IH)
      then show ?thesis using False Returns d1 e1 e2 k(1) by (simp add: Let_def completes_def)
    qed
  qed
qed

lemma shouldIgnore_submits_nothing [simp]:
  "submitted (fst (shouldIgnorePriceRequest env r)) = []"
  by (simp add: shouldIgnorePriceRequest_def split: outcome.splits)

lemma forEachRequest_skip:
  assumes cb: "cacheBlind env send"
    and skip: "\<And>c. \<exists>l. send env c r = (l, Returns (insert (requestIdentifier r) c))
                    \<and> submitted l = []
                    \<and> agree env c (insert (requestIdentifier r) c)"
  shows "submitted (fst (forEachRequest env send c (before @ r # after)))
           = submitted (fst (forEachRequest env send c (before @ after)))
       \<and> (completes (forEachRequest env send c (before @ r # after))
            \<longleftrightarrow> completes (forEachRequest env send c (before @ after)))"
proof (induction before arbitrary: c)
  case Nil
  show ?case
  proof (cases "snd (shouldIgnorePriceRequest env r)")
    case True
    then show ?thesis by (simp add: Let_def completes_def)
  next
    case False
    obtain l where l: "send env c r = (l, Returns (insert (requestIdentifier r) c))"
      "submitted l = []" "agree env c (insert (requestIdentifier r) c)"
      using skip [of c] by blast
    have "submitted (fst (forEachRequest env send c after))
            = submitted (fst (forEachRequest env send (insert (requestIdentifier r) c) after))
        \<and> (completes (forEachRequest env send c after)
              \<longleftrightarrow> completes (forEachRequest env send (insert (requestIdentifier r) c) after))"
      using forEachRequest_agree [OF cb l(3)] .
    then show ?thesis using False l by (simp add: Let_def completes_def)
  qed
next
  case (Cons x xs)
  show ?case
  proof (cases "snd (shouldIgnorePriceRequest env x)")
    case True
    then show ?thesis using Cons.IH [of c] by (simp add: Let_def completes_def)
  next
    case False
    obtain l1 o1 where e1: "send env c x = (l1, o1)" by (cases "send env c x")
    show ?thesis
    proof (cases o1)
      case Throws
      then show ?thesis using False e1 by (simp add: Let_def completes_def)
    next
      case (Returns c1)
      then show ?thesis using False e1 Cons.IH [of c1] by (simp add: Let_def completes_def)
    qed
  qed
qed

lemma sendProposal_unavailable:
  assumes "createReferencePriceFeed env (requestIdentifier r) = Returns True"
    and "priceFeedUpdate env (requestIdentifier r) = Returns ()"
    and "getHistoricalPrice env (requestIdentifier r) (requestTimestamp r) = Throws"
  shows "sendProposal env c r =
     ((if requestIdentifier r \<in> c then []
       else [Log Debug ''Created pricefeed configuration for identifier''])
      @ [Log Error ''Failed to query historical price for price request''],
      Returns (insert (requestIdentifier r) c))"
  using assms by (auto simp add: sendProposal_def createOrGetCachedPriceFeed_def insert_absorb)

lemma sendDispute_unavailable:
  assumes "createReferencePriceFeed env (requestIdentifier r) = Returns True"
    and "priceFeedUpdate env (requestIdentifier r) = Returns ()"
    and "getHistoricalPrice env (requestIdentifier r) (requestTimestamp r) = Throws"
  shows "sendDispute env c r =
     ((if requestIdentifier r \<in> c then []
       else [Log Debug ''Created pricefeed configuration for identifier''])
      @ [Log Error ''Failed to query historical price for price request''],
      Returns (insert (requestIdentifier r) c))"
  using assms
  by (auto simp add: sendDispute_def createOrGetCachedPriceFeed_def insert_absorb Let_def)


text \<open>
  Claim C8. For every price request whose identifier has a price feed that can be constructed
  and updated, but whose historical price lookup fails: \<^verbatim>\<open>_sendProposal\<close> and
  \<^verbatim>\<open>_sendDispute\<close> log the failure, submit no transaction and come back without throwing;
  and a cycle over a list that contains the request submits the same transactions for the
  other requests, and ends in the same way, as a cycle over the list without it.
\<close>

theorem price_unavailable_skips_target:
  assumes "createReferencePriceFeed env (requestIdentifier r) = Returns True"
    and "priceFeedUpdate env (requestIdentifier r) = Returns ()"
    and "getHistoricalPrice env (requestIdentifier r) (requestTimestamp r) = Throws"
  shows "submitted (fst (sendProposal env cache r)) = []
       \<and> completes (sendProposal env cache r)
       \<and> Log Error ''Failed to query historical price for price request''
            \<in> set (fst (sendProposal env cache r))
       \<and> submitted (fst (sendDispute env cache r)) = []
       \<and> completes (sendDispute env cache r)
       \<and> Log Error ''Failed to query historical price for price request''
            \<in> set (fst (sendDispute env cache r))
       \<and> submitted (fst (sendProposals env cache (before @ r # after)))
           = submitted (fst (sendProposals env cache (before @ after)))
       \<and> (completes (sendProposals env cache (before @ r # after))
            \<longleftrightarrow> completes (sendProposals env cache (before @ after)))
       \<and> submitted (fst (sendDisputes env cache (before @ r # after)))
           = submitted (fst (sendDisputes env cache (before @ after)))
       \<and> (completes (sendDisputes env cache (before @ r # after))
            \<longleftrightarrow> completes (sendDisputes env cache (before @ after)))"
proof -
  note p = sendProposal_unavailable [OF assms]
  note d = sendDispute_unavailable [OF assms]
  have ag: "agree env c (insert (requestIdentifier r) c)" for c
    using assms(1) by (simp add: agree_insert)
  have sp: "\<exists>l. sendProposal env c r = (l, Returns (insert (requestIdentifier r) c))
                    \<and> submitted l = [] \<and> agree env c (insert (requestIdentifier r) c)" for c
    using p [of c] ag [of c] by simp
  have sd: "\<exists>l. sendDispute env c r = (l, Returns (insert (requestIdentifier r) c))
                    \<and> submitted l = [] \<and> agree env c (insert (requestIdentifier r) c)" for c
    using d [of c] ag [of c] by simp
  have lp: "submitted (fst (forEachRequest env sendProposal cache (before @ r # after)))
           = submitted (fst (forEachRequest env sendProposal cache (before @ after)))
       \<and> (completes (forEachRequest env sendProposal cache (before @ r # after))
            \<longleftrightarrow> completes (forEachRequest env sendProposal cache (before @ after)))"
    by (rule forEachRequest_skip [OF sendProposal_cacheBlind sp])
  have ld: "submitted (fst (forEachRequest env sendDispute cache (before @ r # after)))
           = submitted (fst (forEachRequest env sendDispute cache (before @ after)))
       \<and> (completes (forEachRequest env sendDispute cache (before @ r # after))
            \<longleftrightarrow> completes (forEachRequest env sendDispute cache (before @ after)))"
    by (rule forEachRequest_skip [OF sendDispute_cacheBlind sd])
  have c1: "submitted (fst (sendProposal env cache r)) = []
       \<and> completes (sendProposal env cache r)
       \<and> Log Error ''Failed to query historical price for price request''
            \<in> set (fst (sendProposal env cache r))"
    unfolding p [of cache] by (simp add: completes_def)
  have c2: "submitted (fst (sendDispute env cache r)) = []
       \<and> completes (sendDispute env cache r)
       \<and> Log Error ''Failed to query historical price for price request''
            \<in> set (fst (sendDispute env cache r))"
    unfolding d [of cache] by (simp add: completes_def)
  have c3: "submitted (fst (sendProposals env cache (before @ r # after)))
           = submitted (fst (sendProposals env cache (before @ after)))
       \<and> (completes (sendProposals env cache (before @ r # after))
            \<longleftrightarrow> completes (sendProposals env cache (before @ after)))"
    using lp by (simp add: sendProposals_def Let_def completes_def)
  have c4: "submitted (fst (sendDisputes env cache (before @ r # after)))
           = submitted (fst (sendDisputes env cache (before @ after)))
       \<and> (completes (sendDisputes env cache (before @ r # after))
            \<longleftrightarrow> completes (sendDisputes env cache (before @ after)))"
    using ld by (simp add: sendDisputes_def Let_def completes_def)
  show ?thesis using c1 c2 c3 c4 by blast
qed

lemma exampleProposerEnv_priced:
  "sendProposals exampleProposerEnv {} [pricedRequest] =
     ([Log Debug ''Checking for unproposed price requests to send proposals for'',
       Log Debug ''Created pricefeed configuration for identifier'',
       Log Debug ''Detected price request, and proposing new price'',
       Submitted (ProposePrice ''0xA'' ''ETHUSD'' 100 ''0x'' 2000),
       Log Info ''Proposed price!''],
      Returns {''ETHUSD''})"
  by (simp add: sendProposals_def sendProposal_def createOrGetCachedPriceFeed_def
      shouldIgnorePriceRequest_def exampleProposerEnv_def pricedRequest_def Let_def)

theorem price_unavailable_skips_target_witness:
  "createReferencePriceFeed exampleProposerEnv (requestIdentifier unpricedRequest) = Returns True
   \<and> priceFeedUpdate exampleProposerEnv (requestIdentifier unpricedRequest) = Returns ()
   \<and> getHistoricalPrice exampleProposerEnv (requestIdentifier unpricedRequest)
        (requestTimestamp unpricedRequest) = Throws
   \<and> submitted (fst (sendProposal exampleProposerEnv {} unpricedRequest)) = []
   \<and> completes (sendProposal exampleProposerEnv {} unpricedRequest)
   \<and> submitted (fst (sendProposals exampleProposerEnv {} [unpricedRequest, pricedRequest]))
       = [ProposePrice ''0xA'' ''ETHUSD'' 100 ''0x'' 2000]
   \<and> completes (sendProposals exampleProposerEnv {} [unpricedRequest, pricedRequest])"
proof -
  have h1: "createReferencePriceFeed exampleProposerEnv (requestIdentifier unpricedRequest)
      = Returns True"
    by (simp add: exampleProposerEnv_def)
  have h2: "priceFeedUpdate exampleProposerEnv (requestIdentifier unpricedRequest) = Returns ()"
    by (simp add: exampleProposerEnv_def)
  have h3: "getHistoricalPrice exampleProposerEnv (requestIdentifier unpricedRequest)
        (requestTimestamp unpricedRequest) = Throws"
    by (simp add: exampleProposerEnv_def unpricedRequest_def)
  note t = price_unavailable_skips_target [OF h1 h2 h3, of "{}" "[]" "[pricedRequest]"]
  have a: "submitted (fst (sendProposal exampleProposerEnv {} unpricedRequest)) = []
      \<and> completes (sendProposal exampleProposerEnv {} unpricedRequest)"
    using t by blast
  have b: "submitted (fst (sendProposals exampleProposerEnv {} [unpricedRequest, pricedRequest]))
       = submitted (fst (sendProposals exampleProposerEnv {} [pricedRequest]))
     \<and> (completes (sendProposals exampleProposerEnv {} [unpricedRequest, pricedRequest])
          \<longleftrightarrow> completes (sendProposals exampleProposerEnv {} [pricedRequest]))"
    using t by simp
  have c: "submitted (fst (sendProposals exampleProposerEnv {} [unpricedRequest, pricedRequest]))
       = [ProposePrice ''0xA'' ''ETHUSD'' 100 ''0x'' 2000]
     \<and> completes (sendProposals exampleProposerEnv {} [unpricedRequest, pricedRequest])"
    using b by (simp add: exampleProposerEnv_priced completes_def)
  show ?thesis using h1 h2 h3 a c by blast
qed

section \<open>Properties of computeTWAP\<close>

lemma divn_mult: "0 < d \<Longrightarrow> d \<le> 67108863 \<Longrightarrow> divn (p * d) d = Inr p"
  by (simp add: divn_def abs_mult sgn_mult mult_sgn_abs)

lemma muln_zero: "muln a 0 = Inr 0"
  by (simp add: muln_def)

lemma overlapDuration_nonneg: "0 \<le> overlapDuration ts s e"
  by (induction ts s e rule: overlapDuration.induct) auto

lemma accumulate_no_window:
  assumes "\<forall>lt. lastTime v = Some lt \<longrightarrow> max (min (fst ev) e - max lt s) 0 = 0"
  shows "accumulate v ev s e = Inr v"
  using assms
  by (cases "lastTime v") (simp_all add: accumulate_def Let_def truthyTime_def muln_zero)

lemma accumulate_before: "fst ev \<le> s \<Longrightarrow> accumulate v ev s e = Inr v"
  by (rule accumulate_no_window) simp

lemma accumulate_after:
  "\<forall>lt. lastTime v = Some lt \<longrightarrow> e \<le> lt \<Longrightarrow> accumulate v ev s e = Inr v"
  by (rule accumulate_no_window) auto

lemma twapLoop_zero_overlap:
  "overlapDuration ((case lastTime v of None \<Rightarrow> [] | Some lt \<Rightarrow> [lt]) @ map fst evs) s e = 0 \<Longrightarrow>
   \<exists>v1. twapLoop evs s e v = Inr v1 \<and> timeSum v1 = timeSum v"
proof (induction evs arbitrary: v)
  case Nil
  then show ?case by simp
next
  case (Cons ev evs)
  have n: "0 \<le> overlapDuration (fst ev # map fst evs) s e" by (rule overlapDuration_nonneg)
  have w: "\<forall>lt. lastTime v = Some lt \<longrightarrow> max (min (fst ev) e - max lt s) 0 = 0"
  proof (intro allI impI)
    fix lt assume lt: "lastTime v = Some lt"
    have "max (min (fst ev) e - max lt s) 0 + overlapDuration (fst ev # map fst evs) s e = 0"
      using Cons.prems lt by simp
    moreover have "0 \<le> max (min (fst ev) e - max lt s) 0" by simp
    ultimately show "max (min (fst ev) e - max lt s) 0 = 0" using n by linarith
  qed
  have rest: "overlapDuration (fst ev # map fst evs) s e = 0"
  proof (cases "lastTime v")
    case None
    then show ?thesis using Cons.prems by simp
  next
    case (Some lt)
    have "max (min (fst ev) e - max lt s) 0 + overlapDuration (fst ev # map fst evs) s e = 0"
      using Cons.prems Some by simp
    moreover have "0 \<le> max (min (fst ev) e - max lt s) 0" by simp
    ultimately show ?thesis using n by linarith
  qed
  have acc: "accumulate v ev s e = Inr v" using w by (rule accumulate_no_window)
  show ?case
  proof (cases "fst ev > e")
    case True
    then show ?thesis using acc by simp
  next
    case False
    let ?v2 = "v\<lparr>lastPrice := snd ev, lastTime := Some (fst ev)\<rparr>"
    have "\<exists>v1. twapLoop evs s e ?v2 = Inr v1 \<and> timeSum v1 = timeSum ?v2"
      using Cons.IH [of ?v2] rest by simp
    then show ?thesis using acc False by simp
  qed
qed

lemma computeTWAP_zero_overlap:
  assumes "totalOverlap events s e = 0"
  shows "snd (computeTWAP events s e c) = Inr None"
proof -
  let ?v0 = "\<lparr>lastPrice = None, lastTime = None, priceSum = c, timeSum = 0\<rparr>"
  let ?evs = "events @ [(MAX_SAFE_JS_INT, None)]"
  have "\<exists>v1. twapLoop ?evs s e ?v0 = Inr v1 \<and> timeSum v1 = timeSum ?v0"
    using twapLoop_zero_overlap [of ?v0 ?evs s e] assms by (simp add: totalOverlap_def)
  then obtain v1 where "twapLoop ?evs s e ?v0 = Inr v1" "timeSum v1 = 0" by auto
  then show ?thesis by (simp add: computeTWAP_def Let_def)
qed

lemma twapLoop_before:
  "\<forall>x\<in>set pre. fst x \<le> s \<Longrightarrow> s \<le> e \<Longrightarrow>
   twapLoop (pre @ rest) s e v =
     twapLoop rest s e
       (if pre = [] then v else v\<lparr>lastPrice := snd (last pre), lastTime := Some (fst (last pre))\<rparr>)"
proof (induction pre arbitrary: v)
  case Nil
  then show ?case by simp
next
  case (Cons x xs)
  have nb: "\<not> fst x > e" using Cons.prems by simp
  have acc: "accumulate v x s e = Inr v" using Cons.prems by (simp add: accumulate_before)
  have "twapLoop ((x # xs) @ rest) s e v =
          twapLoop (xs @ rest) s e (v\<lparr>lastPrice := snd x, lastTime := Some (fst x)\<rparr>)"
    using nb acc by simp
  also have "\<dots> = twapLoop rest s e
       (if xs = [] then v\<lparr>lastPrice := snd x, lastTime := Some (fst x)\<rparr>
        else v\<lparr>lastPrice := snd x, lastTime := Some (fst x)\<rparr>
               \<lparr>lastPrice := snd (last xs), lastTime := Some (fst (last xs))\<rparr>)"
    using Cons.IH [of "v\<lparr>lastPrice := snd x, lastTime := Some (fst x)\<rparr>"] Cons.prems by simp
  finally show ?case by simp
qed

lemma twapLoop_after:
  "\<forall>x\<in>set evs. e \<le> fst x \<Longrightarrow> \<forall>lt. lastTime v = Some lt \<longrightarrow> e \<le> lt \<Longrightarrow>
   \<exists>v1. twapLoop evs s e v = Inr v1 \<and> priceSum v1 = priceSum v \<and> timeSum v1 = timeSum v"
proof (induction evs arbitrary: v)
  case Nil
  then show ?case by simp
next
  case (Cons x xs)
  have acc: "accumulate v x s e = Inr v" using Cons.prems(2) by (rule accumulate_after)
  show ?case
  proof (cases "fst x > e")
    case True
    then show ?thesis using acc by simp
  next
    case False
    let ?v2 = "v\<lparr>lastPrice := snd x, lastTime := Some (fst x)\<rparr>"
    have "\<exists>v1. twapLoop xs s e ?v2 = Inr v1 \<and> priceSum v1 = priceSum ?v2
            \<and> timeSum v1 = timeSum ?v2"
      using Cons.IH [of ?v2] Cons.prems by simp
    then show ?thesis using acc False by simp
  qed
qed

lemma twapLoop_window:
  assumes "lastTime v = Some t" "lastPrice v = Some p" "t \<noteq> 0" "t \<le> s" "s < e"
    and small: "e - s < 67108864"
    and "\<forall>x\<in>set (ev # evs). e \<le> fst x"
  shows "\<exists>v1. twapLoop (ev # evs) s e v = Inr v1 \<and> priceSum v1 = priceSum v + p * (e - s)
            \<and> timeSum v1 = timeSum v + (e - s)"
proof -
  let ?v1 = "v\<lparr>priceSum := priceSum v + p * (e - s), timeSum := timeSum v + (e - s)\<rparr>"
  have acc: "accumulate v ev s e = Inr ?v1"
    using assms by (simp add: accumulate_def Let_def truthyTime_def muln_def)
  show ?thesis
  proof (cases "fst ev > e")
    case True
    then show ?thesis using acc by simp
  next
    case False
    let ?v2 = "?v1\<lparr>lastPrice := snd ev, lastTime := Some (fst ev)\<rparr>"
    have "\<exists>v3. twapLoop evs s e ?v2 = Inr v3 \<and> priceSum v3 = priceSum ?v2
            \<and> timeSum v3 = timeSum ?v2"
      using twapLoop_after [of evs e ?v2 s] assms(7) by simp
    then show ?thesis using acc False by simp
  qed
qed

lemma computeTWAP_covering_sample:
  assumes srt: "sorted (map fst (pre @ (t, Some p) # post))"
    and t0: "t \<noteq> 0" and ts: "t \<le> s" and se: "s < e" and small: "e - s < 67108864"
    and em: "e \<le> MAX_SAFE_JS_INT"
    and nxt: "\<forall>x\<in>set post. e \<le> fst x"
  shows "snd (computeTWAP (pre @ (t, Some p) # post) s e 0) = Inr (Some p)"
proof -
  let ?v0 = "\<lparr>lastPrice = None, lastTime = None, priceSum = 0, timeSum = 0\<rparr>"
  let ?rest = "post @ [(MAX_SAFE_JS_INT, None)]"
  let ?v1 = "?v0\<lparr>lastPrice := Some p, lastTime := Some t\<rparr>"
  have pre: "\<forall>x\<in>set (pre @ [(t, Some p)]). fst x \<le> s"
    using srt ts by (auto simp add: sorted_append)
  have "twapLoop ((pre @ [(t, Some p)]) @ ?rest) s e ?v0 = twapLoop ?rest s e ?v1"
    using twapLoop_before [OF pre, of e ?rest ?v0] se by simp
  then have eq: "twapLoop ((pre @ (t, Some p) # post) @ [(MAX_SAFE_JS_INT, None)]) s e ?v0
                  = twapLoop ?rest s e ?v1" by simp
  obtain ev evs where rest: "?rest = ev # evs" by (cases ?rest) auto
  have "\<forall>x\<in>set ?rest. e \<le> fst x" using nxt em by auto
  then have all: "\<forall>x\<in>set (ev # evs). e \<le> fst x" using rest by simp
  have "\<exists>v2. twapLoop (ev # evs) s e ?v1 = Inr v2 \<and> priceSum v2 = priceSum ?v1 + p * (e - s)
      \<and> timeSum v2 = timeSum ?v1 + (e - s)"
    by (rule twapLoop_window [OF _ _ t0 ts se small all]) simp_all
  then obtain v2 where v2: "twapLoop ?rest s e ?v1 = Inr v2" "priceSum v2 = p * (e - s)"
      "timeSum v2 = e - s" using rest by auto
  have "divn (p * (e - s)) (e - s) = Inr p" using se small by (simp add: divn_mult)
  then show ?thesis using v2 eq se by (simp add: computeTWAP_def Let_def)
qed

text \<open>
  Claim C1, as the code has it. For every chronologically sorted event list that contains a
  sample \<open>(t, p)\<close> whose validity window covers \<open>[startTime, endTime]\<close> (the sample is not
  later than \<open>startTime\<close>, every later event and the sentinel are not earlier than
  \<open>endTime\<close>), the window being of positive length below \<open>2^26\<close> seconds and the sample's
  timestamp being non-zero, \<^verbatim>\<open>computeTWAP\<close> with carry-in sum zero returns exactly \<open>p\<close>.
  For every event list whose total overlap duration with \<open>[startTime, endTime]\<close> is zero,
  whatever the carry-in sum, it returns \<^verbatim>\<open>null\<close>.
\<close>

theorem computeTWAP_covering_sample_or_zero_overlap:
  "(sorted (map fst (pre @ (t, Some p) # post)) \<and> t \<noteq> 0 \<and> t \<le> startTime \<and> startTime < endTime
      \<and> endTime - startTime < 67108864
      \<and> endTime \<le> MAX_SAFE_JS_INT \<and> (\<forall>x\<in>set post. endTime \<le> fst x)
    \<longrightarrow> snd (computeTWAP (pre @ (t, Some p) # post) startTime endTime 0) = Inr (Some p))
   \<and> (totalOverlap events startTime' endTime' = 0
    \<longrightarrow> snd (computeTWAP events startTime' endTime' startingPriceSum) = Inr None)"
  using computeTWAP_covering_sample [of pre t p post startTime endTime]
    computeTWAP_zero_overlap [of events startTime' endTime' startingPriceSum]
  by blast

theorem computeTWAP_covering_sample_or_zero_overlap_witness:
  "sorted (map fst ([(1::int, Some (3::int))] @ (5, Some 7) # [(30, Some 9)])) \<and> (5::int) \<noteq> 0 \<and> (5::int) \<le> 10
     \<and> (10::int) < 20 \<and> (20::int) - 10 < 67108864
     \<and> 20 \<le> MAX_SAFE_JS_INT \<and> (20::int) \<le> fst (30::int, Some (9::int))
     \<and> snd (computeTWAP ([(1, Some 3)] @ (5, Some 7) # [(30, Some 9)]) 10 20 0) = Inr (Some 7)
     \<and> totalOverlap [(20, Some 5)] 0 10 = 0
     \<and> snd (computeTWAP [(20, Some 5)] 0 10 0) = Inr None"
proof -
  have h1: "sorted (map fst ([(1::int, Some (3::int))] @ (5, Some 7) # [(30, Some 9)])) \<and> (5::int) \<noteq> 0
     \<and> (5::int) \<le> 10 \<and> (10::int) < 20 \<and> (20::int) - 10 < 67108864 \<and> 20 \<le> MAX_SAFE_JS_INT
     \<and> (\<forall>x\<in>set [(30::int, Some (9::int))]. 20 \<le> fst x)"
    by (simp add: MAX_SAFE_JS_INT_def)
  have h2: "totalOverlap [(20, Some 5)] 0 10 = 0"
    by (simp add: totalOverlap_def MAX_SAFE_JS_INT_def)
  show ?thesis
    using h1 h2
      computeTWAP_covering_sample_or_zero_overlap
        [of "[(1, Some 3)]" 5 7 "[(30, Some 9)]" 10 20 "[(20, Some 5)]" 0 10 0]
    by simp
qed

text \<open>
  Claim C1 as stated fails: a sample that covers the degenerate window \<open>[10, 10]\<close> yields
  \<^verbatim>\<open>null\<close>, not its price; so does a sample at timestamp \<open>0\<close> on the window \<open>[0, 10]\<close>; and
  on the window \<open>[1, 67108865]\<close>, of \<open>2^26\<close> seconds, \<^verbatim>\<open>muln\<close> throws.
\<close>

theorem computeTWAP_single_sample_counterexample:
  "snd (computeTWAP [(5, Some 7)] 10 10 0) = Inr None
   \<and> snd (computeTWAP [(0, Some 7)] 0 10 0) = Inr None
   \<and> snd (computeTWAP [(1, Some 7)] 1 67108865 0) = Inl (AssertionError ''Assertion failed'')"
  by (simp add: computeTWAP_def MAX_SAFE_JS_INT_def accumulate_def truthyTime_def muln_def Let_def)

text \<open>
  Claim C9, as the code has it. For every event list, window and carry-in sum,
  \<^verbatim>\<open>computeTWAP\<close> leaves the caller's array with exactly one element more, the sentinel
  \<^verbatim>\<open>[MAX_SAFE_JS_INT, null]\<close> at its end; the elements that were there are unchanged and keep
  their positions.
\<close>

theorem computeTWAP_appends_sentinel:
  "fst (computeTWAP events startTime endTime startingPriceSum) = events @ [(MAX_SAFE_JS_INT, None)]"
  by (simp add: computeTWAP_def Let_def)

text \<open>
  Claim C9 as stated fails: the array handed to \<^verbatim>\<open>computeTWAP\<close> is not the same after the
  call.
\<close>

theorem computeTWAP_mutates_events_counterexample:
  "fst (computeTWAP [(5, Some 7)] 0 10 0) \<noteq> [(5, Some 7)]"
  by (simp add: computeTWAP_def Let_def)

end
